theory Spec2Isabelle
  imports Main
begin

section \<open>The pathfinder (Path 1.2): board model and search engine\<close>

text \<open>
  The development follows the C source of Path 1.2. The C type \<^verbatim>\<open>int\<close> is modelled
  by the mathematical integers: every addition and multiplication of the source
  (a coordinate plus an offset, \<^verbatim>\<open>table_size.x * table_size.y\<close>, the move counter and
  the iteration counter) overflows only where C leaves the behaviour undefined.

  The table \<^verbatim>\<open>int **table\<close> is a list of rows, each row a list of cells, rows being
  separate allocations as in \<^verbatim>\<open>main\<close>. Reading or writing a cell outside the
  allocated rows is undefined in C; here such an access yields \<open>None\<close>, and every
  function that touches the table returns an option. The array \<^verbatim>\<open>delta\<close> with its
  length \<^verbatim>\<open>delta_size\<close> is a list of offsets.
\<close>

subsection \<open>Data\<close>

record Coords =
  x :: int
  y :: int

type_synonym table = "int list list"

text \<open>The default set of legal moves of the source (\<^verbatim>\<open>delta[]\<close>, \<^verbatim>\<open>DELTA_SIZE\<close> = 8).\<close>

definition delta_default :: "Coords list" where
  "delta_default =
     [\<lparr>x = 1, y = 2\<rparr>, \<lparr>x = 2, y = 1\<rparr>, \<lparr>x = -1, y = 2\<rparr>, \<lparr>x = -2, y = 1\<rparr>,
      \<lparr>x = 1, y = -2\<rparr>, \<lparr>x = 2, y = -1\<rparr>, \<lparr>x = -1, y = -2\<rparr>, \<lparr>x = -2, y = -1\<rparr>]"

text \<open>
  The expression \<^verbatim>\<open>table[pos.y][pos.x]\<close> as an r-value (\<open>get_cell\<close>) and as an l-value
  (\<open>set_cell\<close>). \<open>cell_ok\<close> says that the row and the cell exist; \<open>val\<close> and \<open>upd\<close> are
  the read and the write there.
\<close>

definition cell_ok :: "table \<Rightarrow> Coords \<Rightarrow> bool" where
  "cell_ok t p \<longleftrightarrow>
     0 \<le> y p \<and> nat (y p) < length t \<and> 0 \<le> x p \<and> nat (x p) < length (t ! nat (y p))"

definition val :: "table \<Rightarrow> Coords \<Rightarrow> int" where
  "val t p = t ! nat (y p) ! nat (x p)"

definition upd :: "table \<Rightarrow> Coords \<Rightarrow> int \<Rightarrow> table" where
  "upd t p v = t[nat (y p) := (t ! nat (y p))[nat (x p) := v]]"

definition get_cell :: "table \<Rightarrow> Coords \<Rightarrow> int option" where
  "get_cell t p = (if cell_ok t p then Some (val t p) else None)"

definition set_cell :: "table \<Rightarrow> Coords \<Rightarrow> int \<Rightarrow> table option" where
  "set_cell t p v = (if cell_ok t p then Some (upd t p v) else None)"

text \<open>The assignments \<^verbatim>\<open>new_pos.x = pos.x + delta[i].x; new_pos.y = pos.y + delta[i].y\<close>.\<close>

definition new_pos :: "Coords \<Rightarrow> Coords \<Rightarrow> Coords" where
  "new_pos pos d = \<lparr>x = x pos + x d, y = y pos + y d\<rparr>"

subsection \<open>Board model\<close>

definition is_available :: "table \<Rightarrow> Coords \<Rightarrow> Coords \<Rightarrow> bool option" where
  "is_available t table_size pos =
     (if x pos < 0 \<or> x pos \<ge> x table_size \<or> y pos < 0 \<or> y pos \<ge> y table_size
      then Some False
      else (case get_cell t pos of
              None \<Rightarrow> None
            | Some v \<Rightarrow> if v \<noteq> 0 then Some False else Some True))"

text \<open>
  \<^verbatim>\<open>is_blocked\<close>: the loop over \<^verbatim>\<open>delta[0 .. delta_size - 1]\<close> is a recursion over the
  list of offsets; the first available neighbour ends it with 0.
\<close>

fun is_blocked :: "table \<Rightarrow> Coords \<Rightarrow> Coords list \<Rightarrow> Coords \<Rightarrow> bool option" where
  "is_blocked t table_size [] pos = Some True"
| "is_blocked t table_size (d # ds) pos =
     (case is_available t table_size (new_pos pos d) of
        None \<Rightarrow> None
      | Some a \<Rightarrow> if a then Some False else is_blocked t table_size ds pos)"

subsection \<open>Search engine\<close>

text \<open>
  The loop guarded by \<^verbatim>\<open>#if ENABLE_CHECK\<close> in \<^verbatim>\<open>path_iter\<close>: \<open>Some True\<close> when some
  available neighbour of \<open>pos\<close> is blocked (the source then unmarks \<open>pos\<close> and returns 0),
  \<open>Some False\<close> when the loop runs to its end. The second list is the part of the move
  table still to be visited; \<open>delta\<close> is the whole table, handed to \<open>is_blocked\<close>.
\<close>

fun check_blocked :: "table \<Rightarrow> Coords \<Rightarrow> Coords list \<Rightarrow> Coords list \<Rightarrow> Coords \<Rightarrow> bool option" where
  "check_blocked t table_size delta [] pos = Some False"
| "check_blocked t table_size delta (d # ds) pos =
     (case is_available t table_size (new_pos pos d) of
        None \<Rightarrow> None
      | Some a \<Rightarrow>
          if a then
            (case is_blocked t table_size delta (new_pos pos d) of
               None \<Rightarrow> None
             | Some b \<Rightarrow> if b then Some True else check_blocked t table_size delta ds pos)
          else check_blocked t table_size delta ds pos)"

text \<open>
  \<^verbatim>\<open>path_iter\<close>. The result is the returned flag, the table and the iteration counter
  after the call; the counter is \<open>None\<close> when the pointer \<^verbatim>\<open>iter\<close> is \<^verbatim>\<open>NULL\<close>. The macro
  \<^verbatim>\<open>ENABLE_CHECK\<close> is the first parameter. \<open>path_moves\<close> is the final loop of
  \<^verbatim>\<open>path_iter\<close> ("check for a successful path along each legal move") together with the
  backing up that follows it; its list is the part of the move table not yet tried, and
  its \<open>moves\<close> is the already incremented counter. The source increments \<^verbatim>\<open>*iter\<close>
  on entry; here every branch hands on the incremented counter. A recursive call that
  fails hands its table and its counter to the next turn of the loop.
\<close>

function path_iter ::
    "bool \<Rightarrow> table \<Rightarrow> Coords \<Rightarrow> Coords list \<Rightarrow> Coords \<Rightarrow> int \<Rightarrow> int option
      \<Rightarrow> (bool \<times> table \<times> int option) option"
  and path_moves ::
    "bool \<Rightarrow> table \<Rightarrow> Coords \<Rightarrow> Coords list \<Rightarrow> Coords list \<Rightarrow> Coords \<Rightarrow> int \<Rightarrow> int option
      \<Rightarrow> (bool \<times> table \<times> int option) option"
where
  "path_iter enable_check t table_size delta pos moves iter =
     (if moves \<ge> x table_size * y table_size
      then Some (True, t, map_option (\<lambda>n. n + 1) iter)
      else (case is_available t table_size pos of
              None \<Rightarrow> None
            | Some a \<Rightarrow>
                if \<not> a then Some (False, t, map_option (\<lambda>n. n + 1) iter)
                else (case set_cell t pos (moves + 1) of
                        None \<Rightarrow> None
                      | Some t1 \<Rightarrow>
                          (case (if enable_check \<and> moves + 1 < x table_size * y table_size - 1
                                 then check_blocked t1 table_size delta delta pos
                                 else Some False) of
                             None \<Rightarrow> None
                           | Some b \<Rightarrow>
                               if b then
                                 (case set_cell t1 pos 0 of
                                    None \<Rightarrow> None
                                  | Some t2 \<Rightarrow> Some (False, t2, map_option (\<lambda>n. n + 1) iter))
                               else path_moves enable_check t1 table_size delta delta pos
                                      (moves + 1) (map_option (\<lambda>n. n + 1) iter)))))"
| "path_moves enable_check t table_size delta [] pos moves iter =
     (case set_cell t pos 0 of
        None \<Rightarrow> None
      | Some t' \<Rightarrow> Some (False, t', iter))"
| "path_moves enable_check t table_size delta (d # ds) pos moves iter =
     (case path_iter enable_check t table_size delta (new_pos pos d) moves iter of
        None \<Rightarrow> None
      | Some r \<Rightarrow>
          if fst r then Some r
          else path_moves enable_check (fst (snd r)) table_size delta ds pos moves (snd (snd r)))"
  by pat_completeness auto
termination
  by (relation "inv_image (measure nat <*lex*> measure id)
        (\<lambda>a. case a of
           Inl (e, t, sz, dl, p, m, it) \<Rightarrow> (x sz * y sz - m, 0)
         | Inr (e, t, sz, dl, ds, p, m, it) \<Rightarrow> (x sz * y sz - m, Suc (length ds)))")
     auto

declare path_iter.simps [simp del]

text \<open>
  \<^verbatim>\<open>path_find\<close>: the two nested loops that fill the table with zeros, the clearing of
  the iteration counter, and the first call of \<^verbatim>\<open>path_iter\<close>.
\<close>

fun zero_cols :: "table \<Rightarrow> int \<Rightarrow> nat list \<Rightarrow> table option" where
  "zero_cols t i [] = Some t"
| "zero_cols t i (j # js) =
     (case set_cell t \<lparr>x = int j, y = i\<rparr> 0 of
        None \<Rightarrow> None
      | Some t' \<Rightarrow> zero_cols t' i js)"

fun zero_rows :: "table \<Rightarrow> Coords \<Rightarrow> nat list \<Rightarrow> table option" where
  "zero_rows t table_size [] = Some t"
| "zero_rows t table_size (i # is) =
     (case zero_cols t (int i) [0..<nat (x table_size)] of
        None \<Rightarrow> None
      | Some t' \<Rightarrow> zero_rows t' table_size is)"

definition path_find ::
    "bool \<Rightarrow> table \<Rightarrow> Coords \<Rightarrow> Coords list \<Rightarrow> Coords \<Rightarrow> int option
      \<Rightarrow> (bool \<times> table \<times> int option) option" where
  "path_find enable_check t table_size delta pos iter =
     (case zero_rows t table_size [0..<nat (y table_size)] of
        None \<Rightarrow> None
      | Some t0 \<Rightarrow>
          path_iter enable_check t0 table_size delta pos 0 (map_option (\<lambda>n. 0) iter))"

section \<open>Specification predicates\<close>

text \<open>A position lies inside \<open>[0, width) \<times> [0, height)\<close>.\<close>

definition in_bounds :: "Coords \<Rightarrow> Coords \<Rightarrow> bool" where
  "in_bounds table_size p \<longleftrightarrow>
     0 \<le> x p \<and> x p < x table_size \<and> 0 \<le> y p \<and> y p < y table_size"

text \<open>
  The precondition of every entry point: the table has the dimensions \<open>table_size\<close>,
  that is \<open>table_size.y\<close> rows of \<open>table_size.x\<close> cells each (no row at all when
  \<open>table_size.y \<le> 0\<close>, empty rows when \<open>table_size.x \<le> 0\<close>).
\<close>

definition table_ok :: "table \<Rightarrow> Coords \<Rightarrow> bool" where
  "table_ok t table_size \<longleftrightarrow>
     length t = nat (y table_size) \<and> list_all (\<lambda>row. length row = nat (x table_size)) t"

text \<open>A position is available: inside the table and not yet visited.\<close>

definition avail :: "table \<Rightarrow> Coords \<Rightarrow> Coords \<Rightarrow> bool" where
  "avail t table_size p \<longleftrightarrow> in_bounds table_size p \<and> val t p = 0"

text \<open>
  What the look-ahead loop of \<^verbatim>\<open>path_iter\<close> looks for: an available neighbour of \<open>pos\<close>
  none of whose own neighbours is available.
\<close>

definition blocks_neighbour :: "table \<Rightarrow> Coords \<Rightarrow> Coords list \<Rightarrow> Coords \<Rightarrow> bool" where
  "blocks_neighbour t table_size delta pos \<longleftrightarrow>
     (\<exists>d \<in> set delta. avail t table_size (new_pos pos d) \<and>
        (\<forall>e \<in> set delta. \<not> avail t table_size (new_pos (new_pos pos d) e)))"

text \<open>
  The flag and the table of a result, without the iteration counter; \<open>iter_result\<close> and
  \<open>moves_result\<close> are \<open>path_iter\<close> and its final loop run without a counter
  (\<^verbatim>\<open>iter == NULL\<close>).
\<close>

definition outcome :: "(bool \<times> table \<times> int option) option \<Rightarrow> (bool \<times> table) option" where
  "outcome r = map_option (\<lambda>r. (fst r, fst (snd r))) r"

definition iter_result ::
    "bool \<Rightarrow> table \<Rightarrow> Coords \<Rightarrow> Coords list \<Rightarrow> Coords \<Rightarrow> int \<Rightarrow> (bool \<times> table) option" where
  "iter_result en t table_size delta pos moves =
     outcome (path_iter en t table_size delta pos moves None)"

definition moves_result ::
    "bool \<Rightarrow> table \<Rightarrow> Coords \<Rightarrow> Coords list \<Rightarrow> Coords list \<Rightarrow> Coords \<Rightarrow> int
      \<Rightarrow> (bool \<times> table) option" where
  "moves_result en t table_size delta ds pos moves =
     outcome (path_moves en t table_size delta ds pos moves None)"

text \<open>
  The marked cells form a simple path of \<open>moves\<close> cells: every cell of the table holds
  0 or one of \<open>1..moves\<close>, each of \<open>1..moves\<close> is held by exactly one cell, and the cell
  holding \<open>k + 1\<close> is the cell holding \<open>k\<close> plus an offset of the move table.
\<close>

definition simple_path :: "table \<Rightarrow> Coords \<Rightarrow> Coords list \<Rightarrow> int \<Rightarrow> bool" where
  "simple_path t table_size delta moves \<longleftrightarrow>
     (\<forall>p. in_bounds table_size p \<longrightarrow> 0 \<le> val t p \<and> val t p \<le> moves) \<and>
     (\<forall>k. 1 \<le> k \<and> k \<le> moves \<longrightarrow> (\<exists>!p. in_bounds table_size p \<and> val t p = k)) \<and>
     (\<forall>p q. in_bounds table_size p \<and> in_bounds table_size q \<and> 1 \<le> val t p \<and>
            val t q = val t p + 1 \<longrightarrow> (\<exists>d \<in> set delta. q = new_pos p d))"

text \<open>
  The position a call of \<^verbatim>\<open>path_iter\<close> is about to occupy is one move away from the
  cell marked last (nothing is asked of the first call, where \<open>moves = 0\<close>).
\<close>

definition follows :: "table \<Rightarrow> Coords \<Rightarrow> Coords list \<Rightarrow> Coords \<Rightarrow> int \<Rightarrow> bool" where
  "follows t table_size delta pos moves \<longleftrightarrow>
     moves = 0 \<or>
     (\<exists>q. in_bounds table_size q \<and> val t q = moves \<and> (\<exists>d \<in> set delta. pos = new_pos q d))"

text \<open>Every cell marked in \<open>t\<close> holds the same number in \<open>t'\<close>.\<close>

definition extends :: "Coords \<Rightarrow> table \<Rightarrow> table \<Rightarrow> bool" where
  "extends table_size t t' \<longleftrightarrow>
     (\<forall>p. in_bounds table_size p \<and> val t p \<noteq> 0 \<longrightarrow> val t' p = val t p)"

text \<open>The table of the dimensions \<open>table_size\<close> whose cells are all 0.\<close>

definition zero_table :: "Coords \<Rightarrow> table" where
  "zero_table table_size = replicate (nat (y table_size)) (replicate (nat (x table_size)) 0)"

text \<open>
  The calls a search started by \<open>path_find\<close> makes. \<open>search_call \<dots> t pos moves iter\<close>: the
  search calls \<open>path_iter\<close> on the table \<open>t\<close> with these arguments; \<open>search_loop \<dots> t ds
  pos moves iter\<close>: the final loop of a frame of \<open>path_iter\<close> stands before the offsets
  \<open>ds\<close>, with the frame's cell \<open>pos\<close> marked \<open>moves\<close> in \<open>t\<close>. The four rules are the
  first call made by \<open>path_find\<close> after the reset, a frame that marks its cell and passes
  the look-ahead, the recursive call for the next offset, and the step to the following
  offset after that call has failed.
\<close>

inductive search_call ::
    "bool \<Rightarrow> Coords \<Rightarrow> Coords list \<Rightarrow> table \<Rightarrow> Coords \<Rightarrow> int option
      \<Rightarrow> table \<Rightarrow> Coords \<Rightarrow> int \<Rightarrow> int option \<Rightarrow> bool"
  and search_loop ::
    "bool \<Rightarrow> Coords \<Rightarrow> Coords list \<Rightarrow> table \<Rightarrow> Coords \<Rightarrow> int option
      \<Rightarrow> table \<Rightarrow> Coords list \<Rightarrow> Coords \<Rightarrow> int \<Rightarrow> int option \<Rightarrow> bool"
  for en :: bool and table_size :: Coords and delta :: "Coords list"
    and t0 :: table and start :: Coords and iter0 :: "int option"
where
  first_call:
    "zero_rows t0 table_size [0..<nat (y table_size)] = Some tz \<Longrightarrow>
     search_call en table_size delta t0 start iter0 tz start 0 (map_option (\<lambda>n. 0) iter0)"
| enter_loop:
    "search_call en table_size delta t0 start iter0 t pos moves iter \<Longrightarrow>
     \<not> x table_size * y table_size \<le> moves \<Longrightarrow>
     is_available t table_size pos = Some True \<Longrightarrow>
     set_cell t pos (moves + 1) = Some t1 \<Longrightarrow>
     (if en \<and> moves + 1 < x table_size * y table_size - 1
      then check_blocked t1 table_size delta delta pos else Some False) = Some False \<Longrightarrow>
     search_loop en table_size delta t0 start iter0 t1 delta pos (moves + 1)
       (map_option (\<lambda>n. n + 1) iter)"
| next_call:
    "search_loop en table_size delta t0 start iter0 t (d # ds) pos moves iter \<Longrightarrow>
     search_call en table_size delta t0 start iter0 t (new_pos pos d) moves iter"
| next_move:
    "search_loop en table_size delta t0 start iter0 t (d # ds) pos moves iter \<Longrightarrow>
     path_iter en t table_size delta (new_pos pos d) moves iter = Some (False, t', iter') \<Longrightarrow>
     search_loop en table_size delta t0 start iter0 t' ds pos moves iter'"

text \<open>
  The move table is closed under negation: with every offset it holds the opposite
  offset, as the eight knight moves do.
\<close>

definition symmetric_moves :: "Coords list \<Rightarrow> bool" where
  "symmetric_moves delta \<longleftrightarrow> list_all (\<lambda>d. \<lparr>x = - x d, y = - y d\<rparr> \<in> set delta) delta"

section \<open>Basic facts about the table\<close>

lemma table_ok_nth:
  "table_ok t sz \<Longrightarrow> i < length t \<Longrightarrow> length (t ! i) = nat (x sz)"
  by (simp add: table_ok_def list_all_length)

lemma cell_ok_bounds: "table_ok t sz \<Longrightarrow> in_bounds sz p \<Longrightarrow> cell_ok t p"
  by (auto simp: table_ok_def list_all_length in_bounds_def cell_ok_def)

lemma table_ok_upd: "table_ok t sz \<Longrightarrow> table_ok (upd t p v) sz"
  by (cases "nat (y p) < length t")
     (auto simp: table_ok_def list_all_length upd_def nth_list_update)

lemma coords_eq_iff: "(p :: Coords) = q \<longleftrightarrow> x p = x q \<and> y p = y q"
  by auto

lemma val_upd:
  "table_ok t sz \<Longrightarrow> in_bounds sz p \<Longrightarrow> in_bounds sz q \<Longrightarrow>
     val (upd t p v) q = (if q = p then v else val t q)"
  by (auto simp: table_ok_def list_all_length in_bounds_def val_def upd_def
        nth_list_update coords_eq_iff)

lemma upd_restore:
  assumes "cell_ok t p" and "val t p = 0"
  shows "upd (upd t p v) p 0 = t"
proof -
  have "(t ! nat (y p))[nat (x p) := 0] = t ! nat (y p)"
    using assms(2) list_update_id [of "t ! nat (y p)" "nat (x p)"] by (simp add: val_def)
  with assms(1) show ?thesis
    by (simp add: upd_def cell_ok_def)
qed

lemma cell_ok_upd: "cell_ok t p \<Longrightarrow> cell_ok (upd t p v) p"
  by (auto simp: cell_ok_def upd_def)

lemma is_available_True:
  "is_available t sz p = Some True \<Longrightarrow> in_bounds sz p \<and> cell_ok t p \<and> val t p = 0"
  by (auto simp: is_available_def in_bounds_def get_cell_def split: if_splits option.splits)

lemma is_available_ok:
  "table_ok t sz \<Longrightarrow> is_available t sz p = Some (avail t sz p)"
  using cell_ok_bounds [of t sz p]
  by (auto simp: is_available_def avail_def in_bounds_def get_cell_def)

lemma get_cell_ok:
  "table_ok t sz \<Longrightarrow> in_bounds sz p \<Longrightarrow> get_cell t p = Some (val t p)"
  by (simp add: get_cell_def cell_ok_bounds)

lemma is_blocked_ok:
  "table_ok t sz \<Longrightarrow>
     is_blocked t sz ds p = Some (\<forall>d \<in> set ds. \<not> avail t sz (new_pos p d))"
  by (induction ds) (auto simp: is_available_ok)

lemma check_blocked_ok:
  "table_ok t sz \<Longrightarrow>
     check_blocked t sz delta ds p =
       Some (\<exists>d \<in> set ds. avail t sz (new_pos p d) \<and>
               (\<forall>e \<in> set delta. \<not> avail t sz (new_pos (new_pos p d) e)))"
  by (induction ds) (auto simp: is_available_ok is_blocked_ok)

section \<open>The search on a table of the stated dimensions\<close>

lemma path_iter_ok:
  assumes "table_ok t sz"
  shows "path_iter en t sz delta pos m it =
     (if x sz * y sz \<le> m then Some (True, t, map_option (\<lambda>n. n + 1) it)
      else if \<not> avail t sz pos then Some (False, t, map_option (\<lambda>n. n + 1) it)
      else if en \<and> m + 1 < x sz * y sz - 1 \<and> blocks_neighbour (upd t pos (m + 1)) sz delta pos
        then Some (False, t, map_option (\<lambda>n. n + 1) it)
      else path_moves en (upd t pos (m + 1)) sz delta delta pos (m + 1)
             (map_option (\<lambda>n. n + 1) it))"
proof (cases "avail t sz pos")
  case False
  with assms show ?thesis
    by (simp add: path_iter.simps [of en t sz delta pos m it] is_available_ok)
next
  case True
  then have ib: "in_bounds sz pos" and z: "val t pos = 0"
    by (auto simp: avail_def)
  have ok: "cell_ok t pos" using assms ib by (rule cell_ok_bounds)
  have ok1: "table_ok (upd t pos (m + 1)) sz" using assms by (rule table_ok_upd)
  show ?thesis
    using True ok cell_ok_upd [OF ok, of "m + 1"] upd_restore [OF ok z, of "m + 1"]
    by (auto simp: path_iter.simps [of en t sz delta pos m it] is_available_ok [OF assms]
          set_cell_def check_blocked_ok [OF ok1] blocks_neighbour_def)
qed

lemma path_moves_Nil_ok:
  "table_ok t sz \<Longrightarrow> in_bounds sz pos \<Longrightarrow>
     path_moves en t sz delta [] pos m it = Some (False, upd t pos 0, it)"
  by (simp add: set_cell_def cell_ok_bounds)

lemma search_total_aux:
  "table_ok t sz \<longrightarrow>
     (\<exists>r t' it'. path_iter en t sz delta pos m it = Some (r, t', it') \<and> table_ok t' sz \<and>
        (\<not> r \<longrightarrow> t' = t) \<and> (it' = None \<longleftrightarrow> it = None) \<and>
        (\<forall>it2. \<exists>it2'. path_iter en t sz delta pos m it2 = Some (r, t', it2')))"
  "table_ok t sz \<and> in_bounds sz pos \<longrightarrow>
     (\<exists>r t' it'. path_moves en t sz delta ds pos m it = Some (r, t', it') \<and> table_ok t' sz \<and>
        (\<not> r \<longrightarrow> t' = upd t pos 0) \<and> (it' = None \<longleftrightarrow> it = None) \<and>
        (\<forall>it2. \<exists>it2'. path_moves en t sz delta ds pos m it2 = Some (r, t', it2')))"
proof (induction en t sz delta pos m it and en t sz delta ds pos m it
        rule: path_iter_path_moves.induct)
  case (1 en t sz delta pos m it)
  show ?case
  proof
    assume tok: "table_ok t sz"
    let ?t1 = "upd t pos (m + 1)"
    let ?it = "map_option (\<lambda>n. n + 1) it"
    have ok1: "table_ok ?t1 sz" using tok by (rule table_ok_upd)
    consider (complete) "x sz * y sz \<le> m"
      | (occupied) "\<not> x sz * y sz \<le> m" "\<not> avail t sz pos"
      | (pruned) "\<not> x sz * y sz \<le> m" "avail t sz pos"
          "en \<and> m + 1 < x sz * y sz - 1 \<and> blocks_neighbour ?t1 sz delta pos"
      | (moves) "\<not> x sz * y sz \<le> m" "avail t sz pos"
          "\<not> (en \<and> m + 1 < x sz * y sz - 1 \<and> blocks_neighbour ?t1 sz delta pos)"
      by blast
    then show "\<exists>r t' it'. path_iter en t sz delta pos m it = Some (r, t', it') \<and> table_ok t' sz \<and>
        (\<not> r \<longrightarrow> t' = t) \<and> (it' = None \<longleftrightarrow> it = None) \<and>
        (\<forall>it2. \<exists>it2'. path_iter en t sz delta pos m it2 = Some (r, t', it2'))"
    proof cases
      case complete
      then show ?thesis using tok by (auto simp: path_iter_ok)
    next
      case occupied
      then show ?thesis using tok by (auto simp: path_iter_ok)
    next
      case pruned
      then show ?thesis using tok by (auto simp: path_iter_ok)
    next
      case moves
      from moves(2) have ib: "in_bounds sz pos" and z: "val t pos = 0"
        by (auto simp: avail_def)
      have ok: "cell_ok t pos" using tok ib by (rule cell_ok_bounds)
      have rst: "upd ?t1 pos 0 = t" using ok z by (rule upd_restore)
      have a: "is_available t sz pos = Some True"
        using tok moves(2) by (simp add: is_available_ok)
      have s: "set_cell t pos (m + 1) = Some ?t1"
        using ok by (simp add: set_cell_def)
      have c: "(if en \<and> m + 1 < x sz * y sz - 1
                then check_blocked ?t1 sz delta delta pos else Some False) = Some False"
        using moves(3) by (auto simp: check_blocked_ok [OF ok1] blocks_neighbour_def)
      from "1.IH" [OF moves(1) a _ s c] ok1 ib
      obtain r t' it' where
        r: "path_moves en ?t1 sz delta delta pos (m + 1) ?it = Some (r, t', it')"
        and tok': "table_ok t' sz" and rest: "\<not> r \<longrightarrow> t' = upd ?t1 pos 0"
        and cnt: "it' = None \<longleftrightarrow> it = None"
        and ind: "\<forall>it2. \<exists>it2'. path_moves en ?t1 sz delta delta pos (m + 1) it2 = Some (r, t', it2')"
        by auto
      have eq: "\<And>it2. path_iter en t sz delta pos m it2 =
                  path_moves en ?t1 sz delta delta pos (m + 1) (map_option (\<lambda>n. n + 1) it2)"
        using moves tok by (auto simp: path_iter_ok)
      show ?thesis
        using r tok' rest ind rst cnt by (auto simp: eq)
    qed
  qed
next
  case (2 en t sz delta pos m it)
  show ?case
    by (auto simp: set_cell_def cell_ok_bounds table_ok_upd)
next
  case (3 en t sz delta d ds pos m it)
  show ?case
  proof
    assume asm: "table_ok t sz \<and> in_bounds sz pos"
    then have tok: "table_ok t sz" by simp
    from "3.IH"(1) tok obtain r1 t1 it1 where
      r1: "path_iter en t sz delta (new_pos pos d) m it = Some (r1, t1, it1)"
      and tok1: "table_ok t1 sz" and rest1: "\<not> r1 \<longrightarrow> t1 = t"
      and cnt1: "it1 = None \<longleftrightarrow> it = None"
      and ind1: "\<forall>it2. \<exists>it2'. path_iter en t sz delta (new_pos pos d) m it2 = Some (r1, t1, it2')"
      by auto
    show "\<exists>r t' it'. path_moves en t sz delta (d # ds) pos m it = Some (r, t', it') \<and>
        table_ok t' sz \<and> (\<not> r \<longrightarrow> t' = upd t pos 0) \<and> (it' = None \<longleftrightarrow> it = None) \<and>
        (\<forall>it2. \<exists>it2'. path_moves en t sz delta (d # ds) pos m it2 = Some (r, t', it2'))"
    proof (cases r1)
      case True
      have "\<forall>it2. \<exists>it2'. path_moves en t sz delta (d # ds) pos m it2 = Some (True, t1, it2')"
      proof
        fix it2
        from ind1 obtain it2' where "path_iter en t sz delta (new_pos pos d) m it2 = Some (r1, t1, it2')"
          by blast
        with True show "\<exists>it2'. path_moves en t sz delta (d # ds) pos m it2 = Some (True, t1, it2')"
          by simp
      qed
      with True r1 tok1 cnt1 show ?thesis
        by (rule_tac x = True in exI, rule_tac x = t1 in exI, rule_tac x = it1 in exI) simp
    next
      case False
      with rest1 have t1: "t1 = t" by simp
      from "3.IH"(2) [OF r1] False t1 asm obtain r t' it' where
        r: "path_moves en t sz delta ds pos m it1 = Some (r, t', it')"
        and tok': "table_ok t' sz" and rest: "\<not> r \<longrightarrow> t' = upd t pos 0"
        and cnt: "it' = None \<longleftrightarrow> it1 = None"
        and ind: "\<forall>it2. \<exists>it2'. path_moves en t sz delta ds pos m it2 = Some (r, t', it2')"
        by auto
      have "\<forall>it2. \<exists>it2'. path_moves en t sz delta (d # ds) pos m it2 = Some (r, t', it2')"
      proof
        fix it2
        from ind1 obtain it2' where "path_iter en t sz delta (new_pos pos d) m it2 = Some (r1, t1, it2')"
          by blast
        with False t1 ind show "\<exists>it2'. path_moves en t sz delta (d # ds) pos m it2 = Some (r, t', it2')"
          by simp
      qed
      with False r1 t1 r tok' rest cnt cnt1 show ?thesis
        by (rule_tac x = r in exI, rule_tac x = t' in exI, rule_tac x = it' in exI) simp
    qed
  qed
qed

subsection \<open>Results without the iteration counter\<close>

lemma path_iter_total:
  assumes "table_ok t sz"
  obtains r t' it' where "path_iter en t sz delta pos m it = Some (r, t', it')"
    and "table_ok t' sz" and "\<not> r \<Longrightarrow> t' = t"
    and "iter_result en t sz delta pos m = Some (r, t')"
proof -
  from search_total_aux(1) [of t sz en delta pos m it] assms
  obtain r t' it' where a: "path_iter en t sz delta pos m it = Some (r, t', it')"
    and b: "table_ok t' sz" "\<not> r \<longrightarrow> t' = t"
    and c: "\<forall>it2. \<exists>it2'. path_iter en t sz delta pos m it2 = Some (r, t', it2')"
    by blast
  from c obtain i where "path_iter en t sz delta pos m None = Some (r, t', i)" by blast
  then have "iter_result en t sz delta pos m = Some (r, t')"
    by (simp add: iter_result_def outcome_def)
  with a b that show thesis by blast
qed

lemma path_iter_counter:
  assumes "table_ok t sz" and "path_iter en t sz delta pos m it = Some (r, t', it')"
  shows "it' = None \<longleftrightarrow> it = None"
  using search_total_aux(1) [of t sz en delta pos m it] assms by auto

lemma path_moves_total:
  assumes "table_ok t sz" and "in_bounds sz pos"
  obtains r t' it' where "path_moves en t sz delta ds pos m it = Some (r, t', it')"
    and "table_ok t' sz" and "\<not> r \<Longrightarrow> t' = upd t pos 0"
    and "moves_result en t sz delta ds pos m = Some (r, t')"
proof -
  from search_total_aux(2) [of t sz pos en delta ds m it] assms
  obtain r t' it' where a: "path_moves en t sz delta ds pos m it = Some (r, t', it')"
    and b: "table_ok t' sz" "\<not> r \<longrightarrow> t' = upd t pos 0"
    and c: "\<forall>it2. \<exists>it2'. path_moves en t sz delta ds pos m it2 = Some (r, t', it2')"
    by blast
  from c obtain i where "path_moves en t sz delta ds pos m None = Some (r, t', i)" by blast
  then have "moves_result en t sz delta ds pos m = Some (r, t')"
    by (simp add: moves_result_def outcome_def)
  with a b that show thesis by blast
qed

lemma path_iter_outcome:
  assumes "table_ok t sz"
  shows "outcome (path_iter en t sz delta pos m it) = iter_result en t sz delta pos m"
proof -
  from assms obtain r t' it' where "path_iter en t sz delta pos m it = Some (r, t', it')"
    and "iter_result en t sz delta pos m = Some (r, t')"
    by (rule path_iter_total)
  then show ?thesis by (simp add: outcome_def)
qed

lemma path_moves_outcome:
  assumes "table_ok t sz" and "in_bounds sz pos"
  shows "outcome (path_moves en t sz delta ds pos m it) = moves_result en t sz delta ds pos m"
proof -
  from assms obtain r t' it' where "path_moves en t sz delta ds pos m it = Some (r, t', it')"
    and "moves_result en t sz delta ds pos m = Some (r, t')"
    by (rule path_moves_total)
  then show ?thesis by (simp add: outcome_def)
qed

lemma iter_result_eq:
  assumes "table_ok t sz"
  shows "iter_result en t sz delta pos m =
     (if x sz * y sz \<le> m then Some (True, t)
      else if \<not> avail t sz pos then Some (False, t)
      else if en \<and> m + 1 < x sz * y sz - 1 \<and> blocks_neighbour (upd t pos (m + 1)) sz delta pos
        then Some (False, t)
      else moves_result en (upd t pos (m + 1)) sz delta delta pos (m + 1))"
  by (simp add: iter_result_def moves_result_def path_iter_ok [OF assms] outcome_def)

lemma moves_result_Nil:
  "table_ok t sz \<Longrightarrow> in_bounds sz pos \<Longrightarrow>
     moves_result en t sz delta [] pos m = Some (False, upd t pos 0)"
  by (simp add: moves_result_def outcome_def set_cell_def cell_ok_bounds)

lemma moves_result_Cons:
  assumes "table_ok t sz" and "in_bounds sz pos"
  shows "moves_result en t sz delta (d # ds) pos m =
     (case iter_result en t sz delta (new_pos pos d) m of
        None \<Rightarrow> None
      | Some r \<Rightarrow> if fst r then Some r else moves_result en t sz delta ds pos m)"
proof -
  from assms(1) obtain r1 t1 i1 where
    a: "path_iter en t sz delta (new_pos pos d) m None = Some (r1, t1, i1)"
    and b: "\<not> r1 \<Longrightarrow> t1 = t"
    and c: "iter_result en t sz delta (new_pos pos d) m = Some (r1, t1)"
    by (rule path_iter_total [where it = None]) blast
  show ?thesis
  proof (cases r1)
    case True
    with a c show ?thesis by (simp add: moves_result_def outcome_def)
  next
    case False
    with b have "t1 = t" by simp
    with False a c path_moves_outcome [OF assms, of en delta ds m i1] show ?thesis
      by (simp add: moves_result_def)
  qed
qed

lemma moves_result_success:
  assumes "table_ok t sz" and "in_bounds sz pos"
  shows "moves_result en t sz delta ds pos m = Some (True, t') \<longleftrightarrow>
         (\<exists>ds1 d ds2. ds = ds1 @ d # ds2 \<and>
            (\<forall>e \<in> set ds1. iter_result en t sz delta (new_pos pos e) m = Some (False, t)) \<and>
            iter_result en t sz delta (new_pos pos d) m = Some (True, t'))"
proof (induction ds)
  case Nil
  show ?case using assms by (simp add: moves_result_Nil)
next
  case (Cons a ds)
  from assms(1) obtain r1 t1 where
    b: "\<not> r1 \<Longrightarrow> t1 = t"
    and c: "iter_result en t sz delta (new_pos pos a) m = Some (r1, t1)"
    by (rule path_iter_total [where it = None]) blast
  show ?case
  proof (cases r1)
    case True
    show ?thesis
    proof
      assume "moves_result en t sz delta (a # ds) pos m = Some (True, t')"
      with True c have "iter_result en t sz delta (new_pos pos a) m = Some (True, t')"
        by (simp add: moves_result_Cons [OF assms])
      then show "\<exists>ds1 d ds2. a # ds = ds1 @ d # ds2 \<and>
            (\<forall>e \<in> set ds1. iter_result en t sz delta (new_pos pos e) m = Some (False, t)) \<and>
            iter_result en t sz delta (new_pos pos d) m = Some (True, t')"
        by (rule_tac x = "[]" in exI) simp
    next
      assume "\<exists>ds1 d ds2. a # ds = ds1 @ d # ds2 \<and>
            (\<forall>e \<in> set ds1. iter_result en t sz delta (new_pos pos e) m = Some (False, t)) \<and>
            iter_result en t sz delta (new_pos pos d) m = Some (True, t')"
      then obtain ds1 d ds2 where e: "a # ds = ds1 @ d # ds2"
        and f: "\<forall>e \<in> set ds1. iter_result en t sz delta (new_pos pos e) m = Some (False, t)"
        and g: "iter_result en t sz delta (new_pos pos d) m = Some (True, t')"
        by blast
      have "ds1 = []"
      proof (cases ds1)
        case (Cons b bs)
        with e f have "iter_result en t sz delta (new_pos pos a) m = Some (False, t)" by simp
        with c True show ?thesis by simp
      qed simp
      with e g c True show "moves_result en t sz delta (a # ds) pos m = Some (True, t')"
        by (simp add: moves_result_Cons [OF assms])
    qed
  next
    case False
    with b c have c': "iter_result en t sz delta (new_pos pos a) m = Some (False, t)" by simp
    then have step: "moves_result en t sz delta (a # ds) pos m = moves_result en t sz delta ds pos m"
      by (simp add: moves_result_Cons [OF assms])
    show ?thesis
    proof
      assume "moves_result en t sz delta (a # ds) pos m = Some (True, t')"
      with step Cons.IH obtain ds1 d ds2 where "ds = ds1 @ d # ds2"
        and "\<forall>e \<in> set ds1. iter_result en t sz delta (new_pos pos e) m = Some (False, t)"
        and "iter_result en t sz delta (new_pos pos d) m = Some (True, t')"
        by auto
      with c' show "\<exists>ds1 d ds2. a # ds = ds1 @ d # ds2 \<and>
            (\<forall>e \<in> set ds1. iter_result en t sz delta (new_pos pos e) m = Some (False, t)) \<and>
            iter_result en t sz delta (new_pos pos d) m = Some (True, t')"
        by (rule_tac x = "a # ds1" in exI) simp
    next
      assume "\<exists>ds1 d ds2. a # ds = ds1 @ d # ds2 \<and>
            (\<forall>e \<in> set ds1. iter_result en t sz delta (new_pos pos e) m = Some (False, t)) \<and>
            iter_result en t sz delta (new_pos pos d) m = Some (True, t')"
      then obtain ds1 d ds2 where e: "a # ds = ds1 @ d # ds2"
        and f: "\<forall>e \<in> set ds1. iter_result en t sz delta (new_pos pos e) m = Some (False, t)"
        and g: "iter_result en t sz delta (new_pos pos d) m = Some (True, t')"
        by blast
      from e g c' obtain bs where "ds1 = a # bs"
        by (cases ds1) auto
      with e f g have "\<exists>ds1 d ds2. ds = ds1 @ d # ds2 \<and>
            (\<forall>e \<in> set ds1. iter_result en t sz delta (new_pos pos e) m = Some (False, t)) \<and>
            iter_result en t sz delta (new_pos pos d) m = Some (True, t')"
        by auto
      with Cons.IH step show "moves_result en t sz delta (a # ds) pos m = Some (True, t')"
        by simp
    qed
  qed
qed

lemma moves_result_found:
  assumes "table_ok t sz" and "in_bounds sz pos"
  shows "(\<exists>t'. moves_result en t sz delta ds pos m = Some (True, t')) \<longleftrightarrow>
         (\<exists>d \<in> set ds. \<exists>t'. iter_result en t sz delta (new_pos pos d) m = Some (True, t'))"
proof (induction ds)
  case Nil
  show ?case using assms by (simp add: moves_result_Nil)
next
  case (Cons a ds)
  from assms(1) obtain r1 t1 where
    b: "\<not> r1 \<Longrightarrow> t1 = t"
    and c: "iter_result en t sz delta (new_pos pos a) m = Some (r1, t1)"
    by (rule path_iter_total [where it = None]) blast
  show ?case
    using Cons.IH c by (cases r1) (auto simp: moves_result_Cons [OF assms])
qed

section \<open>The simple-path invariant\<close>

lemma simple_path_mark:
  assumes tok: "table_ok t sz" and sp: "simple_path t sz delta m"
    and fo: "follows t sz delta pos m" and av: "avail t sz pos" and m0: "0 \<le> m"
  shows "simple_path (upd t pos (m + 1)) sz delta (m + 1)"
proof -
  let ?t1 = "upd t pos (m + 1)"
  from av have ib: "in_bounds sz pos" and z: "val t pos = 0" by (auto simp: avail_def)
  have v: "\<And>q. in_bounds sz q \<Longrightarrow> val ?t1 q = (if q = pos then m + 1 else val t q)"
    using tok ib by (rule val_upd)
  from sp have rng: "\<And>p. in_bounds sz p \<Longrightarrow> 0 \<le> val t p \<and> val t p \<le> m"
    and uni: "\<And>k. 1 \<le> k \<Longrightarrow> k \<le> m \<Longrightarrow> \<exists>!p. in_bounds sz p \<and> val t p = k"
    and adj: "\<And>p q. in_bounds sz p \<Longrightarrow> in_bounds sz q \<Longrightarrow> 1 \<le> val t p \<Longrightarrow>
                val t q = val t p + 1 \<Longrightarrow> \<exists>d \<in> set delta. q = new_pos p d"
    by (auto simp: simple_path_def)
  have a: "\<forall>p. in_bounds sz p \<longrightarrow> 0 \<le> val ?t1 p \<and> val ?t1 p \<le> m + 1"
  proof (intro allI impI)
    fix p assume "in_bounds sz p"
    with rng [of p] m0 show "0 \<le> val ?t1 p \<and> val ?t1 p \<le> m + 1" by (simp add: v)
  qed
  have b: "\<forall>k. 1 \<le> k \<and> k \<le> m + 1 \<longrightarrow> (\<exists>!p. in_bounds sz p \<and> val ?t1 p = k)"
  proof (intro allI impI)
    fix k assume k: "1 \<le> k \<and> k \<le> m + 1"
    show "\<exists>!p. in_bounds sz p \<and> val ?t1 p = k"
    proof (cases "k = m + 1")
      case True
      show ?thesis
      proof (rule ex1I [of _ pos])
        show "in_bounds sz pos \<and> val ?t1 pos = k" using ib True by (simp add: v)
      next
        fix p assume "in_bounds sz p \<and> val ?t1 p = k"
        with True rng [of p] show "p = pos" by (auto simp: v split: if_splits)
      qed
    next
      case False
      with k have k': "1 \<le> k" "k \<le> m" by auto
      from uni [OF k'] obtain p where p: "in_bounds sz p" "val t p = k"
        and pu: "\<And>q. in_bounds sz q \<Longrightarrow> val t q = k \<Longrightarrow> q = p"
        by blast
      from p k' z have ne: "p \<noteq> pos" by auto
      show ?thesis
      proof (rule ex1I [of _ p])
        show "in_bounds sz p \<and> val ?t1 p = k" using p ne by (simp add: v)
      next
        fix q assume q: "in_bounds sz q \<and> val ?t1 q = k"
        with False have "q \<noteq> pos" by (auto simp: v)
        with q have "in_bounds sz q" "val t q = k" by (auto simp: v)
        then show "q = p" by (rule pu)
      qed
    qed
  qed
  have c: "\<forall>p q. in_bounds sz p \<and> in_bounds sz q \<and> 1 \<le> val ?t1 p \<and>
            val ?t1 q = val ?t1 p + 1 \<longrightarrow> (\<exists>d \<in> set delta. q = new_pos p d)"
  proof (intro allI impI)
    fix p q
    assume h: "in_bounds sz p \<and> in_bounds sz q \<and> 1 \<le> val ?t1 p \<and> val ?t1 q = val ?t1 p + 1"
    then have ibp: "in_bounds sz p" and ibq: "in_bounds sz q" by auto
    show "\<exists>d \<in> set delta. q = new_pos p d"
    proof (cases "q = pos")
      case True
      with h ibp have pne: "p \<noteq> pos" and vp: "val t p = m" by (auto simp: v split: if_splits)
      with h ibp have m1: "1 \<le> m" by (simp add: v)
      with fo obtain q0 where q0: "in_bounds sz q0" "val t q0 = m"
        and st: "\<exists>d \<in> set delta. pos = new_pos q0 d"
        by (auto simp: follows_def)
      from uni [OF m1] q0 ibp vp have "q0 = p" by auto
      with st True show ?thesis by simp
    next
      case False
      with h ibq have vq: "val t q = val ?t1 p + 1" by (simp add: v)
      have "p \<noteq> pos"
      proof
        assume "p = pos"
        with vq ibp have "val t q = m + 2" by (simp add: v)
        with rng [OF ibq] show False by simp
      qed
      with h ibp vq have "1 \<le> val t p" "val t q = val t p + 1" by (auto simp: v)
      with adj [OF ibp ibq] show ?thesis by simp
    qed
  qed
  from a b c show ?thesis by (simp add: simple_path_def)
qed

lemma follows_mark:
  assumes "table_ok t sz" and "in_bounds sz pos" and "d \<in> set delta"
  shows "follows (upd t pos m) sz delta (new_pos pos d) m"
  using assms val_upd [OF assms(1,2,2), of m] by (auto simp: follows_def)

lemma extends_refl: "extends sz t t"
  by (simp add: extends_def)

lemma extends_mark:
  assumes tok: "table_ok t sz" and av: "avail t sz pos" and ex: "extends sz (upd t pos v) t'"
  shows "extends sz t t'"
  unfolding extends_def
proof (intro allI impI)
  fix p assume p: "in_bounds sz p \<and> val t p \<noteq> 0"
  with av have "p \<noteq> pos" by (auto simp: avail_def)
  with p tok av have "val (upd t pos v) p = val t p" by (simp add: val_upd avail_def)
  with ex p show "val t' p = val t p" by (auto simp: extends_def)
qed

lemma search_success:
  assumes "table_ok t sz" and "simple_path t sz delta m" and "follows t sz delta pos m"
    and "0 \<le> m" and "iter_result en t sz delta pos m = Some (True, t')"
  shows "simple_path t' sz delta (max m (x sz * y sz)) \<and> extends sz t t' \<and>
         (m < x sz * y sz \<longrightarrow> in_bounds sz pos \<and> val t' pos = m + 1)"
  using assms
proof (induction "nat (x sz * y sz - m)" arbitrary: t pos m rule: less_induct)
  case less
  show ?case
  proof (cases "x sz * y sz \<le> m")
    case True
    with less.prems show ?thesis
      by (simp add: iter_result_eq extends_refl max_def)
  next
    case False
    let ?t1 = "upd t pos (m + 1)"
    from False less.prems(1,5) have av: "avail t sz pos"
      and mr: "moves_result en ?t1 sz delta delta pos (m + 1) = Some (True, t')"
      by (auto simp: iter_result_eq split: if_splits)
    from av have ib: "in_bounds sz pos" by (simp add: avail_def)
    have tok1: "table_ok ?t1 sz" using less.prems(1) by (rule table_ok_upd)
    have sp1: "simple_path ?t1 sz delta (m + 1)"
      using less.prems(1,2,3) av less.prems(4) by (rule simple_path_mark)
    from moves_result_success [OF tok1 ib, of en delta delta "m + 1" t', THEN iffD1, OF mr]
    obtain ds1 d ds2 where dl: "delta = ds1 @ d # ds2"
      and ir: "iter_result en ?t1 sz delta (new_pos pos d) (m + 1) = Some (True, t')"
      by blast
    from dl have d: "d \<in> set delta" by simp
    have fo1: "follows ?t1 sz delta (new_pos pos d) (m + 1)"
      using less.prems(1) ib d by (rule follows_mark)
    have "nat (x sz * y sz - (m + 1)) < nat (x sz * y sz - m)" using False by simp
    from less.hyps [OF this tok1 sp1 fo1 _ ir] less.prems(4)
    have sp': "simple_path t' sz delta (max (m + 1) (x sz * y sz))"
      and ex': "extends sz ?t1 t'" by auto
    have "max (m + 1) (x sz * y sz) = max m (x sz * y sz)" using False by simp
    moreover have "extends sz t t'" using less.prems(1) av ex' by (rule extends_mark)
    moreover have "val t' pos = m + 1"
      using ex' ib less.prems(1,4) val_upd [OF less.prems(1) ib ib, of "m + 1"]
      by (auto simp: extends_def)
    ultimately show ?thesis using sp' ib by simp
  qed
qed

section \<open>The reset of the table\<close>

lemma table_ok_zero: "table_ok (zero_table sz) sz"
  by (simp add: zero_table_def table_ok_def list_all_length)

lemma val_zero: "in_bounds sz p \<Longrightarrow> val (zero_table sz) p = 0"
  by (simp add: zero_table_def val_def in_bounds_def)

lemma table_eqI:
  assumes "table_ok t sz" and "table_ok t' sz"
    and "\<And>p. in_bounds sz p \<Longrightarrow> val t p = val t' p"
  shows "t = t'"
proof (rule nth_equalityI)
  show "length t = length t'" using assms(1,2) by (simp add: table_ok_def)
next
  fix i assume i: "i < length t"
  then have i': "i < length t'" using assms(1,2) by (simp add: table_ok_def)
  have iy: "int i < y sz" using i assms(1) by (auto simp: table_ok_def)
  show "t ! i = t' ! i"
  proof (rule nth_equalityI)
    show "length (t ! i) = length (t' ! i)"
      using table_ok_nth [OF assms(1) i] table_ok_nth [OF assms(2) i'] by simp
  next
    fix j assume "j < length (t ! i)"
    then have "int j < x sz" using table_ok_nth [OF assms(1) i] by auto
    with iy have "in_bounds sz \<lparr>x = int j, y = int i\<rparr>" by (simp add: in_bounds_def)
    from assms(3) [OF this] show "t ! i ! j = t' ! i ! j" by (simp add: val_def)
  qed
qed

lemma zero_cols_ok:
  assumes "0 \<le> i" and "i < y sz"
  shows "table_ok t sz \<Longrightarrow> \<forall>j \<in> set js. int j < x sz \<Longrightarrow>
     \<exists>t'. zero_cols t i js = Some t' \<and> table_ok t' sz \<and>
       (\<forall>p. in_bounds sz p \<longrightarrow>
          val t' p = (if y p = i \<and> nat (x p) \<in> set js then 0 else val t p))"
proof (induction js arbitrary: t)
  case Nil
  then show ?case by simp
next
  case (Cons j js)
  let ?c = "\<lparr>x = int j, y = i\<rparr>"
  let ?t1 = "upd t ?c 0"
  have ib: "in_bounds sz ?c" using assms Cons.prems(2) by (simp add: in_bounds_def)
  have s: "set_cell t ?c 0 = Some ?t1"
    using cell_ok_bounds [OF Cons.prems(1) ib] by (simp add: set_cell_def)
  have tok1: "table_ok ?t1 sz" using Cons.prems(1) by (rule table_ok_upd)
  from Cons.IH [OF tok1] Cons.prems(2) obtain t' where
    z: "zero_cols ?t1 i js = Some t'" and tok': "table_ok t' sz"
    and v: "\<forall>p. in_bounds sz p \<longrightarrow>
          val t' p = (if y p = i \<and> nat (x p) \<in> set js then 0 else val ?t1 p)"
    by auto
  have "\<forall>p. in_bounds sz p \<longrightarrow>
          val t' p = (if y p = i \<and> nat (x p) \<in> set (j # js) then 0 else val t p)"
  proof (intro allI impI)
    fix p assume p: "in_bounds sz p"
    have "p = ?c \<longleftrightarrow> y p = i \<and> nat (x p) = j"
      using p by (auto simp: in_bounds_def coords_eq_iff)
    with v p val_upd [OF Cons.prems(1) ib p, of 0]
    show "val t' p = (if y p = i \<and> nat (x p) \<in> set (j # js) then 0 else val t p)"
      by auto
  qed
  with s z tok' show ?case by simp
qed

lemma zero_rows_ok:
  "table_ok t sz \<Longrightarrow> \<forall>i \<in> set rs. int i < y sz \<Longrightarrow>
     \<exists>t'. zero_rows t sz rs = Some t' \<and> table_ok t' sz \<and>
       (\<forall>p. in_bounds sz p \<longrightarrow> val t' p = (if nat (y p) \<in> set rs then 0 else val t p))"
proof (induction rs arbitrary: t)
  case Nil
  then show ?case by simp
next
  case (Cons i rs)
  have "0 \<le> int i" "int i < y sz" using Cons.prems(2) by auto
  have "\<forall>j \<in> set [0..<nat (x sz)]. int j < x sz" by auto
  from zero_cols_ok [OF \<open>0 \<le> int i\<close> \<open>int i < y sz\<close> Cons.prems(1) this]
  obtain t1 where z1: "zero_cols t (int i) [0..<nat (x sz)] = Some t1"
    and tok1: "table_ok t1 sz"
    and v1: "\<forall>p. in_bounds sz p \<longrightarrow>
          val t1 p = (if y p = int i \<and> nat (x p) \<in> set [0..<nat (x sz)] then 0 else val t p)"
    by auto
  from Cons.IH [OF tok1] Cons.prems(2) obtain t' where
    z: "zero_rows t1 sz rs = Some t'" and tok': "table_ok t' sz"
    and v: "\<forall>p. in_bounds sz p \<longrightarrow> val t' p = (if nat (y p) \<in> set rs then 0 else val t1 p)"
    by auto
  have "\<forall>p. in_bounds sz p \<longrightarrow> val t' p = (if nat (y p) \<in> set (i # rs) then 0 else val t p)"
  proof (intro allI impI)
    fix p assume p: "in_bounds sz p"
    then have "nat (x p) \<in> set [0..<nat (x sz)]" and "y p = int i \<longleftrightarrow> nat (y p) = i"
      by (auto simp: in_bounds_def)
    with v v1 p show "val t' p = (if nat (y p) \<in> set (i # rs) then 0 else val t p)"
      by auto
  qed
  with z1 z tok' show ?case by simp
qed

lemma zero_rows_all:
  assumes "table_ok t sz"
  shows "zero_rows t sz [0..<nat (y sz)] = Some (zero_table sz)"
proof -
  have "\<forall>i \<in> set [0..<nat (y sz)]. int i < y sz" by auto
  from zero_rows_ok [OF assms this]
  obtain t' where z: "zero_rows t sz [0..<nat (y sz)] = Some t'" and tok': "table_ok t' sz"
    and v: "\<forall>p. in_bounds sz p \<longrightarrow>
              val t' p = (if nat (y p) \<in> set [0..<nat (y sz)] then 0 else val t p)"
    by auto
  have "t' = zero_table sz"
  proof (rule table_eqI [OF tok' table_ok_zero])
    fix p assume p: "in_bounds sz p"
    then have "nat (y p) \<in> set [0..<nat (y sz)]" by (auto simp: in_bounds_def)
    with v p show "val t' p = val (zero_table sz) p" by (simp add: val_zero)
  qed
  with z show ?thesis by simp
qed

lemma path_find_ok:
  "table_ok t sz \<Longrightarrow>
     path_find en t sz delta pos it =
       path_iter en (zero_table sz) sz delta pos 0 (map_option (\<lambda>n. 0) it)"
  by (simp add: path_find_def zero_rows_all)

section \<open>A failing call restores the table\<close>

lemma restore_aux:
  "(\<forall>t' it'. path_iter en t sz delta pos moves iter = Some (False, t', it') \<longrightarrow> t' = t)"
  "(\<forall>t' it'. path_moves en t sz delta ds pos moves iter = Some (False, t', it') \<longrightarrow>
       set_cell t pos 0 = Some t')"
proof (induction en t sz delta pos moves iter and en t sz delta ds pos moves iter
        rule: path_iter_path_moves.induct)
  case (1 en t sz delta pos moves iter)
  show ?case
  proof (intro allI impI)
    fix t' it'
    assume r: "path_iter en t sz delta pos moves iter = Some (False, t', it')"
    from r have lt: "\<not> x sz * y sz \<le> moves"
      by (auto simp: path_iter.simps [of en t sz delta pos moves iter])
    from r lt obtain a where a: "is_available t sz pos = Some a"
      by (auto simp: path_iter.simps [of en t sz delta pos moves iter] split: option.splits)
    show "t' = t"
    proof (cases a)
      case False
      with r lt a show ?thesis
        by (simp add: path_iter.simps [of en t sz delta pos moves iter])
    next
      case True
      with a have ok: "cell_ok t pos" and z: "val t pos = 0"
        using is_available_True [of t sz pos] by auto
      let ?t1 = "upd t pos (moves + 1)"
      have s1: "set_cell t pos (moves + 1) = Some ?t1"
        using ok by (simp add: set_cell_def)
      have ok1: "cell_ok ?t1 pos"
        using ok by (rule cell_ok_upd)
      have s2: "set_cell ?t1 pos 0 = Some t"
        using ok1 upd_restore [OF ok z] by (simp add: set_cell_def)
      let ?c = "if en \<and> moves + 1 < x sz * y sz - 1
                then check_blocked ?t1 sz delta delta pos else Some False"
      from r lt a True s1 obtain b where b: "?c = Some b"
        by (auto simp: path_iter.simps [of en t sz delta pos moves iter] split: option.splits)
      show ?thesis
      proof (cases b)
        case True
        with r lt a \<open>a\<close> s1 s2 b show ?thesis
          by (simp add: path_iter.simps [of en t sz delta pos moves iter])
      next
        case False
        with r lt a \<open>a\<close> s1 b
        have "path_moves en ?t1 sz delta delta pos (moves + 1) (map_option (\<lambda>n. n + 1) iter)
                = Some (False, t', it')"
          by (simp add: path_iter.simps [of en t sz delta pos moves iter])
        with "1.IH" [OF lt a _ s1 b False] \<open>a\<close> have "set_cell ?t1 pos 0 = Some t'"
          by auto
        with s2 show ?thesis by simp
      qed
    qed
  qed
next
  case (2 en t sz delta pos moves iter)
  show ?case by (auto split: option.splits)
next
  case (3 en t sz delta d ds pos moves iter)
  show ?case
  proof (intro allI impI)
    fix t' it'
    assume r: "path_moves en t sz delta (d # ds) pos moves iter = Some (False, t', it')"
    then obtain r1 where r1: "path_iter en t sz delta (new_pos pos d) moves iter = Some r1"
      by (auto split: option.splits)
    with r have nf: "\<not> fst r1" and
      rest: "path_moves en (fst (snd r1)) sz delta ds pos moves (snd (snd r1)) = Some (False, t', it')"
      by (auto split: if_splits)
    from nf r1 "3.IH"(1) have "fst (snd r1) = t" by (cases r1) auto
    with "3.IH"(2) [OF r1 nf] rest show "set_cell t pos 0 = Some t'" by auto
  qed
qed

lemma zero_table_cells: "list_all (list_all (\<lambda>v. v = 0)) (zero_table sz)"
  by (simp add: zero_table_def list_all_length)

section \<open>Small boards and the order of the move table\<close>

lemma unit_board:
  assumes "x sz * y sz = 1" and "in_bounds sz pos"
  shows "x sz = 1 \<and> y sz = 1 \<and> pos = \<lparr>x = 0, y = 0\<rparr>"
proof -
  from assms(2) have "0 < x sz" "0 < y sz" by (auto simp: in_bounds_def)
  with assms(1) have "x sz = 1 \<and> y sz = 1" by (auto simp: zmult_eq_1_iff)
  with assms(2) show ?thesis by (auto simp: in_bounds_def coords_eq_iff)
qed

lemma blocks_neighbour_set:
  "set delta = set delta' \<Longrightarrow>
     blocks_neighbour t sz delta pos = blocks_neighbour t sz delta' pos"
  by (simp add: blocks_neighbour_def)

lemma found_depends_on_set:
  assumes "set delta = set delta'" and "table_ok t sz"
  shows "(\<exists>t'. iter_result en t sz delta pos m = Some (True, t')) \<longleftrightarrow>
         (\<exists>t'. iter_result en t sz delta' pos m = Some (True, t'))"
  using assms(2)
proof (induction "nat (x sz * y sz - m)" arbitrary: t pos m rule: less_induct)
  case less
  let ?t1 = "upd t pos (m + 1)"
  show ?case
  proof (cases "x sz * y sz \<le> m \<or> \<not> avail t sz pos \<or>
                (en \<and> m + 1 < x sz * y sz - 1 \<and> blocks_neighbour ?t1 sz delta pos)")
    case True
    then show ?thesis
      using blocks_neighbour_set [OF assms(1), of ?t1 sz pos]
      by (auto simp: iter_result_eq [OF less.prems])
  next
    case False
    then have ib: "in_bounds sz pos" by (simp add: avail_def)
    have tok1: "table_ok ?t1 sz" using less.prems by (rule table_ok_upd)
    have lt: "nat (x sz * y sz - (m + 1)) < nat (x sz * y sz - m)" using False by simp
    have "(\<exists>t'. moves_result en ?t1 sz delta delta pos (m + 1) = Some (True, t')) \<longleftrightarrow>
          (\<exists>t'. moves_result en ?t1 sz delta' delta' pos (m + 1) = Some (True, t'))"
      unfolding moves_result_found [OF tok1 ib]
      using less.hyps [OF lt tok1] assms(1) by simp
    with False show ?thesis
      using blocks_neighbour_set [OF assms(1), of ?t1 sz pos]
      by (auto simp: iter_result_eq [OF less.prems])
  qed
qed

section \<open>A full board has no unvisited cell\<close>

lemma in_bounds_image:
  "{p. in_bounds sz p} = (\<lambda>(i, j). \<lparr>x = i, y = j\<rparr>) ` ({0..<x sz} \<times> {0..<y sz})"
proof (intro set_eqI iffI)
  fix p assume "p \<in> {p. in_bounds sz p}"
  then have "(x p, y p) \<in> {0..<x sz} \<times> {0..<y sz}" by (simp add: in_bounds_def)
  moreover have "p = (\<lambda>(i, j). \<lparr>x = i, y = j\<rparr>) (x p, y p)" by simp
  ultimately show "p \<in> (\<lambda>(i, j). \<lparr>x = i, y = j\<rparr>) ` ({0..<x sz} \<times> {0..<y sz})"
    by (rule rev_image_eqI)
next
  fix p assume "p \<in> (\<lambda>(i, j). \<lparr>x = i, y = j\<rparr>) ` ({0..<x sz} \<times> {0..<y sz})"
  then show "p \<in> {p. in_bounds sz p}" by (auto simp: in_bounds_def)
qed

lemma finite_in_bounds: "finite {p. in_bounds sz p}"
  unfolding in_bounds_image by simp

lemma card_in_bounds:
  assumes "0 \<le> x sz" and "0 \<le> y sz"
  shows "card {p. in_bounds sz p} = nat (x sz * y sz)"
proof -
  have "inj_on (\<lambda>(i, j). \<lparr>x = i, y = j\<rparr>) ({0..<x sz} \<times> {0..<y sz})"
    by (auto simp: inj_on_def)
  then have "card {p. in_bounds sz p} = card ({0..<x sz} \<times> {0..<y sz})"
    unfolding in_bounds_image by (rule card_image)
  also have "\<dots> = nat (x sz) * nat (y sz)" by (simp add: card_cartesian_product)
  also have "\<dots> = nat (x sz * y sz)" using assms by (simp add: nat_mult_distrib)
  finally show ?thesis .
qed

lemma full_board:
  assumes sp: "simple_path t sz delta (x sz * y sz)" and ib: "in_bounds sz p"
  shows "val t p \<noteq> 0"
proof -
  let ?B = "{p. in_bounds sz p}"
  let ?N = "{p. in_bounds sz p \<and> val t p \<noteq> 0}"
  let ?n = "x sz * y sz"
  from ib have pos: "0 \<le> x sz" "0 \<le> y sz" by (auto simp: in_bounds_def)
  from sp have rng: "\<And>p. in_bounds sz p \<Longrightarrow> 0 \<le> val t p \<and> val t p \<le> ?n"
    and uni: "\<And>k. 1 \<le> k \<Longrightarrow> k \<le> ?n \<Longrightarrow> \<exists>!p. in_bounds sz p \<and> val t p = k"
    by (auto simp: simple_path_def)
  have img: "val t ` ?N = {1..?n}"
  proof (intro set_eqI iffI)
    fix k assume "k \<in> val t ` ?N"
    then obtain q where "in_bounds sz q" "val t q \<noteq> 0" "k = val t q" by auto
    with rng [of q] show "k \<in> {1..?n}" by auto
  next
    fix k assume "k \<in> {1..?n}"
    then have "1 \<le> k" "k \<le> ?n" by auto
    from uni [OF this] obtain q where "in_bounds sz q" "val t q = k" by blast
    with \<open>1 \<le> k\<close> show "k \<in> val t ` ?N" by auto
  qed
  have inj: "inj_on (val t) ?N"
  proof (rule inj_onI)
    fix a b assume a: "a \<in> ?N" and b: "b \<in> ?N" and e: "val t a = val t b"
    from a rng [of a] have "1 \<le> val t a" "val t a \<le> ?n" by auto
    from uni [OF this] a b e show "a = b" by auto
  qed
  have "card ?N = card (val t ` ?N)" using inj by (rule card_image [symmetric])
  also have "\<dots> = nat ?n" unfolding img by simp
  also have "\<dots> = card ?B" using pos by (rule card_in_bounds [symmetric])
  finally have "card ?N = card ?B" .
  moreover have "?N \<subseteq> ?B" by auto
  ultimately have "?N = ?B" using finite_in_bounds by (rule_tac card_subset_eq) auto
  with ib show ?thesis by blast
qed

lemma cell_ok_iff: "table_ok t sz \<Longrightarrow> cell_ok t p \<longleftrightarrow> in_bounds sz p"
  by (auto simp: table_ok_def list_all_length in_bounds_def cell_ok_def)

lemma get_cell_iff:
  "table_ok t sz \<Longrightarrow> get_cell t p = Some k \<longleftrightarrow> in_bounds sz p \<and> val t p = k"
  by (auto simp: get_cell_def cell_ok_iff)

lemma simple_path_zero: "simple_path (zero_table sz) sz delta 0"
  by (auto simp: simple_path_def val_zero)

lemma path_find_success:
  assumes tok: "table_ok t sz"
    and pf: "path_find en t sz delta pos iter = Some (True, t', iter')"
  shows "table_ok t' sz \<and> simple_path t' sz delta (max 0 (x sz * y sz)) \<and>
         (0 < x sz * y sz \<longrightarrow> in_bounds sz pos \<and> val t' pos = 1)"
proof -
  let ?z = "zero_table sz"
  from pf tok have pi: "path_iter en ?z sz delta pos 0 (map_option (\<lambda>n. 0) iter)
                    = Some (True, t', iter')"
    by (simp add: path_find_ok)
  from table_ok_zero obtain r t2 i2 where
    "path_iter en ?z sz delta pos 0 (map_option (\<lambda>n. 0) iter) = Some (r, t2, i2)"
    and tok2: "table_ok t2 sz" and ir: "iter_result en ?z sz delta pos 0 = Some (r, t2)"
    by (rule path_iter_total)
  with pi have tok': "table_ok t' sz" and ir': "iter_result en ?z sz delta pos 0 = Some (True, t')"
    by auto
  have fo: "follows ?z sz delta pos 0" by (simp add: follows_def)
  from search_success [OF table_ok_zero simple_path_zero fo _ ir'] tok'
  show ?thesis by simp
qed

section \<open>The invariant along the calls of a search\<close>

lemma search_invariant:
  assumes tok0: "table_ok t0 sz"
  shows "search_call en sz delta t0 start it0 t pos m it \<Longrightarrow>
            table_ok t sz \<and> simple_path t sz delta m \<and> follows t sz delta pos m \<and> 0 \<le> m"
    and "search_loop en sz delta t0 start it0 t ds pos m it \<Longrightarrow>
            table_ok t sz \<and> simple_path t sz delta m \<and> in_bounds sz pos \<and> val t pos = m \<and>
            1 \<le> m \<and> set ds \<subseteq> set delta \<and> upd t pos 0 \<noteq> t \<and>
            simple_path (upd t pos 0) sz delta (m - 1)"
proof (induction rule: search_call_search_loop.inducts)
  case (first_call tz)
  with tok0 have "tz = zero_table sz" by (simp add: zero_rows_all)
  then show ?case
    by (simp add: table_ok_zero simple_path_zero follows_def)
next
  case (enter_loop t pos moves iter t1)
  from enter_loop.IH have tok: "table_ok t sz" and sp: "simple_path t sz delta moves"
    and fo: "follows t sz delta pos moves" and m0: "0 \<le> moves"
    by simp_all
  from \<open>is_available t sz pos = Some True\<close> have ib: "in_bounds sz pos" and ok: "cell_ok t pos" and z: "val t pos = 0"
    using is_available_True by blast+
  have av: "avail t sz pos" using ib z by (simp add: avail_def)
  from \<open>set_cell t pos (moves + 1) = Some t1\<close> ok have t1: "t1 = upd t pos (moves + 1)" by (simp add: set_cell_def)
  have v: "val t1 pos = moves + 1" unfolding t1 using tok ib ib by (simp add: val_upd)
  have r: "upd t1 pos 0 = t" unfolding t1 using ok z by (rule upd_restore)
  have "t1 \<noteq> t" using v z m0 by auto
  with r have ne: "upd t1 pos 0 \<noteq> t1" by simp
  have "simple_path t1 sz delta (moves + 1)"
    unfolding t1 using tok sp fo av m0 by (rule simple_path_mark)
  moreover have "table_ok t1 sz" unfolding t1 using tok by (rule table_ok_upd)
  ultimately show ?case using ib v m0 r sp ne by simp
next
  case (next_call t d ds pos moves iter)
  from next_call.IH have "follows t sz delta (new_pos pos d) moves"
    by (auto simp: follows_def)
  with next_call.IH show ?case by simp
next
  case (next_move t d ds pos moves iter t' iter')
  from \<open>path_iter en t sz delta (new_pos pos d) moves iter = Some (False, t', iter')\<close>
    restore_aux(1) have "t' = t" by blast
  with next_move.IH show ?case by simp
qed

section \<open>The look-ahead on symmetric move tables\<close>

lemma step_back: "n = new_pos q e \<Longrightarrow> q = new_pos n \<lparr>x = - x e, y = - y e\<rparr>"
  by (simp add: new_pos_def)

lemma prune_sound:
  assumes sym: "symmetric_moves delta" and tok: "table_ok t sz"
    and sp: "simple_path t sz delta m" and fo: "follows t sz delta pos m" and m0: "0 \<le> m"
    and av: "avail t sz pos" and lt: "m + 1 < x sz * y sz - 1"
    and bl: "blocks_neighbour (upd t pos (m + 1)) sz delta pos"
  shows "iter_result False t sz delta pos m = Some (False, t)"
proof -
  let ?t1 = "upd t pos (m + 1)"
  let ?n = "x sz * y sz"
  from tok obtain r t' where ir: "iter_result False t sz delta pos m = Some (r, t')"
    and rst: "\<not> r \<Longrightarrow> t' = t"
    by (rule path_iter_total [where en = False and delta = delta and pos = pos and m = m
          and it = None]) blast
  have "\<not> r"
  proof
    assume r
    with ir have ir': "iter_result False t sz delta pos m = Some (True, t')" by simp
    from search_success [OF tok sp fo m0 ir'] lt
    have sp': "simple_path t' sz delta ?n" and ex: "extends sz t t'"
      and ib: "in_bounds sz pos" and vp: "val t' pos = m + 1"
      by (simp_all add: max_def)
    have v1: "\<And>q. in_bounds sz q \<Longrightarrow> val ?t1 q = (if q = pos then m + 1 else val t q)"
      using tok ib by (rule val_upd)
    have sp1: "simple_path ?t1 sz delta (m + 1)"
      using tok sp fo av m0 by (rule simple_path_mark)
    from sp' have rng': "\<And>p. in_bounds sz p \<Longrightarrow> 0 \<le> val t' p \<and> val t' p \<le> ?n"
      and uni': "\<And>k. 1 \<le> k \<Longrightarrow> k \<le> ?n \<Longrightarrow> \<exists>!p. in_bounds sz p \<and> val t' p = k"
      and adj': "\<And>p q. in_bounds sz p \<Longrightarrow> in_bounds sz q \<Longrightarrow> 1 \<le> val t' p \<Longrightarrow>
                val t' q = val t' p + 1 \<Longrightarrow> \<exists>d \<in> set delta. q = new_pos p d"
      by (auto simp: simple_path_def)
    from sp1 have rng1: "\<And>p. in_bounds sz p \<Longrightarrow> 0 \<le> val ?t1 p \<and> val ?t1 p \<le> m + 1"
      by (auto simp: simple_path_def)
    have keep: "\<And>q. in_bounds sz q \<Longrightarrow> val ?t1 q \<noteq> 0 \<Longrightarrow> val t' q = val ?t1 q"
    proof -
      fix q assume q: "in_bounds sz q" "val ?t1 q \<noteq> 0"
      show "val t' q = val ?t1 q"
      proof (cases "q = pos")
        case True
        with vp q show ?thesis by (simp add: v1)
      next
        case False
        with q ex show ?thesis by (simp add: v1 extends_def)
      qed
    qed
    have fresh: "\<And>q. in_bounds sz q \<Longrightarrow> m + 1 < val t' q \<Longrightarrow> avail ?t1 sz q"
    proof -
      fix q assume q: "in_bounds sz q" "m + 1 < val t' q"
      have "val ?t1 q = 0"
      proof (rule ccontr)
        assume "val ?t1 q \<noteq> 0"
        with keep [OF q(1)] have "val t' q = val ?t1 q" by simp
        with rng1 [OF q(1)] q(2) show False by simp
      qed
      with q(1) show "avail ?t1 sz q" by (simp add: avail_def)
    qed
    from bl obtain d0 where d0: "d0 \<in> set delta"
      and avn: "avail ?t1 sz (new_pos pos d0)"
      and blocked: "\<And>e. e \<in> set delta \<Longrightarrow> \<not> avail ?t1 sz (new_pos (new_pos pos d0) e)"
      by (auto simp: blocks_neighbour_def)
    let ?c = "new_pos pos d0"
    from avn have ibn: "in_bounds sz ?c" and zn: "val ?t1 ?c = 0" by (auto simp: avail_def)
    let ?j = "val t' ?c"
    have jn: "?j \<noteq> 0" using sp' ibn by (rule full_board)
    with rng' [OF ibn] have j1: "1 \<le> ?j" and jle: "?j \<le> ?n" by auto
    have jm: "m + 1 < ?j"
    proof (rule ccontr)
      assume "\<not> m + 1 < ?j"
      then have "?j \<le> m + 1" by simp
      with sp1 j1 obtain p where p: "in_bounds sz p" "val ?t1 p = ?j"
        by (auto simp: simple_path_def)
      with j1 keep [OF p(1)] have "val t' p = ?j" by simp
      with uni' [OF j1 jle] p(1) ibn have "p = ?c" by auto
      with p(2) zn j1 show False by simp
    qed
    show False
    proof (cases "?j < ?n")
      case True
      with j1 have "1 \<le> ?j + 1" "?j + 1 \<le> ?n" by auto
      from uni' [OF this] obtain q where q: "in_bounds sz q" "val t' q = ?j + 1" by blast
      from adj' [OF ibn q(1) j1 q(2)] obtain e where e: "e \<in> set delta" "q = new_pos ?c e"
        by blast
      from fresh [OF q(1)] q(2) jm have "avail ?t1 sz q" by simp
      with blocked [OF e(1)] e(2) show False by simp
    next
      case False
      with jle have jn: "?j = ?n" by simp
      with lt have "1 \<le> ?j - 1" "?j - 1 \<le> ?n" using m0 by auto
      from uni' [OF this] obtain q where q: "in_bounds sz q" "val t' q = ?j - 1" by blast
      with lt jn m0 have q1: "1 \<le> val t' q" and qs: "val t' ?c = val t' q + 1" by auto
      from adj' [OF q(1) ibn q1 qs] obtain e where e: "e \<in> set delta" "?c = new_pos q e"
        by blast
      let ?e' = "\<lparr>x = - x e, y = - y e\<rparr>"
      from sym e(1) have e': "?e' \<in> set delta" by (simp add: symmetric_moves_def list_all_iff)
      from e(2) have qe: "q = new_pos ?c ?e'" by (rule step_back)
      from fresh [OF q(1)] q(2) jn lt have "avail ?t1 sz q" by simp
      with blocked [OF e'] qe show False by simp
    qed
  qed
  with ir rst show ?thesis by simp
qed

lemma moves_result_cong:
  assumes tok: "table_ok t sz" and ib: "in_bounds sz pos"
    and eq: "\<And>d. d \<in> set ds \<Longrightarrow>
               iter_result True t sz delta (new_pos pos d) m =
               iter_result False t sz delta (new_pos pos d) m"
  shows "moves_result True t sz delta ds pos m = moves_result False t sz delta ds pos m"
  using eq
proof (induction ds)
  case Nil
  show ?case using tok ib by (simp add: moves_result_Nil)
next
  case (Cons a ds)
  then show ?case by (simp add: moves_result_Cons [OF tok ib] split: option.splits)
qed

lemma prune_equiv:
  assumes sym: "symmetric_moves delta"
  shows "table_ok t sz \<Longrightarrow> simple_path t sz delta m \<Longrightarrow> follows t sz delta pos m \<Longrightarrow>
         0 \<le> m \<Longrightarrow>
         iter_result True t sz delta pos m = iter_result False t sz delta pos m"
proof (induction "nat (x sz * y sz - m)" arbitrary: t pos m rule: less_induct)
  case less
  note tok = less.prems(1) and sp = less.prems(2) and fo = less.prems(3) and m0 = less.prems(4)
  let ?t1 = "upd t pos (m + 1)"
  show ?case
  proof (cases "x sz * y sz \<le> m \<or> \<not> avail t sz pos")
    case True
    then show ?thesis by (auto simp: iter_result_eq [OF tok])
  next
    case False
    then have av: "avail t sz pos" and lt: "\<not> x sz * y sz \<le> m" by simp_all
    from av have ib: "in_bounds sz pos" by (simp add: avail_def)
    show ?thesis
    proof (cases "m + 1 < x sz * y sz - 1 \<and> blocks_neighbour ?t1 sz delta pos")
      case True
      then have "iter_result False t sz delta pos m = Some (False, t)"
        using prune_sound [OF sym tok sp fo m0 av] by simp
      moreover from True av lt have "iter_result True t sz delta pos m = Some (False, t)"
        by (simp add: iter_result_eq [OF tok])
      ultimately show ?thesis by simp
    next
      case False
      have tok1: "table_ok ?t1 sz" using tok by (rule table_ok_upd)
      have sp1: "simple_path ?t1 sz delta (m + 1)"
        using tok sp fo av m0 by (rule simple_path_mark)
      have less1: "nat (x sz * y sz - (m + 1)) < nat (x sz * y sz - m)" using lt by simp
      have "moves_result True ?t1 sz delta delta pos (m + 1) =
            moves_result False ?t1 sz delta delta pos (m + 1)"
        using tok1 ib
      proof (rule moves_result_cong)
        fix d assume "d \<in> set delta"
        with tok ib have "follows ?t1 sz delta (new_pos pos d) (m + 1)" by (rule follows_mark)
        with less.hyps [OF less1 tok1 sp1] m0
        show "iter_result True ?t1 sz delta (new_pos pos d) (m + 1) =
              iter_result False ?t1 sz delta (new_pos pos d) (m + 1)"
          by simp
      qed
      with False av lt show ?thesis by (auto simp: iter_result_eq [OF tok])
    qed
  qed
qed

section \<open>Properties of the specification\<close>

text \<open>
  C1 (amended). For a move table closed under negation, on a table of the stated
  dimensions, \<open>path_find\<close> with the look-ahead compiled in and \<open>path_find\<close> without it
  return the same flag and leave the same grid of move numbers; the iteration counts may
  differ. For other move tables the two searches can disagree: on the 4 by 1 board with the
  offsets \<open>(1, 0)\<close> and \<open>(3, 0)\<close> and the start \<open>(0, 0)\<close> the search without the
  look-ahead finds the tour 1, 2, 3, 4, and the search with it fails in its first frame,
  because the cell \<open>(3, 0)\<close>, reachable from the start, has no onward move.
\<close>

theorem pruning_preserves_result:
  assumes "table_ok t table_size" and "symmetric_moves delta"
  shows "\<exists>found t' iter1 iter2.
           path_find True t table_size delta pos iter = Some (found, t', iter1) \<and>
           path_find False t table_size delta pos iter = Some (found, t', iter2)"
proof -
  let ?z = "zero_table table_size"
  let ?i = "map_option (\<lambda>n. 0 :: int) iter"
  from table_ok_zero obtain r1 t1 i1 where
    a: "path_iter True ?z table_size delta pos 0 ?i = Some (r1, t1, i1)"
    and a': "iter_result True ?z table_size delta pos 0 = Some (r1, t1)"
    by (rule path_iter_total)
  from table_ok_zero obtain r2 t2 i2 where
    b: "path_iter False ?z table_size delta pos 0 ?i = Some (r2, t2, i2)"
    and b': "iter_result False ?z table_size delta pos 0 = Some (r2, t2)"
    by (rule path_iter_total)
  have fo: "follows ?z table_size delta pos 0" by (simp add: follows_def)
  from prune_equiv [OF assms(2) table_ok_zero simple_path_zero fo] a' b'
  have "r1 = r2" "t1 = t2" by simp_all
  with a b show ?thesis using assms(1) by (simp add: path_find_ok)
qed

theorem pruning_preserves_result_witness:
  "table_ok [[0, 0, 0, 0]] \<lparr>x = 4, y = 1\<rparr> \<and>
   symmetric_moves [\<lparr>x = 1, y = 0\<rparr>, \<lparr>x = -1, y = 0\<rparr>] \<and>
   path_find False [[0, 0, 0, 0]] \<lparr>x = 4, y = 1\<rparr> [\<lparr>x = 1, y = 0\<rparr>, \<lparr>x = -1, y = 0\<rparr>] \<lparr>x = 0, y = 0\<rparr> (Some 0)
     = Some (True, [[1, 2, 3, 4]], Some 5) \<and>
   (\<exists>iter1. path_find True [[0, 0, 0, 0]] \<lparr>x = 4, y = 1\<rparr> [\<lparr>x = 1, y = 0\<rparr>, \<lparr>x = -1, y = 0\<rparr>] \<lparr>x = 0, y = 0\<rparr> (Some 0)
     = Some (True, [[1, 2, 3, 4]], iter1)) \<and>
   path_find False [[0, 0, 0, 0]] \<lparr>x = 4, y = 1\<rparr> [\<lparr>x = 1, y = 0\<rparr>, \<lparr>x = -1, y = 0\<rparr>] \<lparr>x = 1, y = 0\<rparr> (Some 0)
     = Some (False, [[0, 0, 0, 0]], Some 9) \<and>
   (\<exists>iter1. path_find True [[0, 0, 0, 0]] \<lparr>x = 4, y = 1\<rparr> [\<lparr>x = 1, y = 0\<rparr>, \<lparr>x = -1, y = 0\<rparr>] \<lparr>x = 1, y = 0\<rparr> (Some 0)
     = Some (False, [[0, 0, 0, 0]], iter1)) \<and>
   symmetric_moves delta_default"
proof -
  let ?d = "[\<lparr>x = 1, y = 0\<rparr>, \<lparr>x = -1, y = 0\<rparr>]"
  have ok: "table_ok [[0, 0, 0, 0]] \<lparr>x = 4, y = 1\<rparr>"
    by (simp add: table_ok_def)
  have sy: "symmetric_moves ?d"
    by (simp add: symmetric_moves_def)
  have e: "path_find False [[0, 0, 0, 0]] \<lparr>x = 4, y = 1\<rparr> ?d \<lparr>x = 0, y = 0\<rparr> (Some 0)
     = Some (True, [[1, 2, 3, 4]], Some 5)"
    by code_simp
  have f: "path_find False [[0, 0, 0, 0]] \<lparr>x = 4, y = 1\<rparr> ?d \<lparr>x = 1, y = 0\<rparr> (Some 0)
     = Some (False, [[0, 0, 0, 0]], Some 9)"
    by code_simp
  from pruning_preserves_result [OF ok sy, of "\<lparr>x = 0, y = 0\<rparr>" "Some 0"] e
  have e': "\<exists>iter1. path_find True [[0, 0, 0, 0]] \<lparr>x = 4, y = 1\<rparr> ?d \<lparr>x = 0, y = 0\<rparr> (Some 0)
     = Some (True, [[1, 2, 3, 4]], iter1)"
    by auto
  from pruning_preserves_result [OF ok sy, of "\<lparr>x = 1, y = 0\<rparr>" "Some 0"] f
  have f': "\<exists>iter1. path_find True [[0, 0, 0, 0]] \<lparr>x = 4, y = 1\<rparr> ?d \<lparr>x = 1, y = 0\<rparr> (Some 0)
     = Some (False, [[0, 0, 0, 0]], iter1)"
    by auto
  have "symmetric_moves delta_default"
    by (simp add: symmetric_moves_def delta_default_def)
  with ok sy e e' f f' show ?thesis by blast
qed

theorem pruning_preserves_result_counterexample:
  "path_find True [[0, 0, 0, 0]] \<lparr>x = 4, y = 1\<rparr> [\<lparr>x = 1, y = 0\<rparr>, \<lparr>x = 3, y = 0\<rparr>] \<lparr>x = 0, y = 0\<rparr> None
     = Some (False, [[0, 0, 0, 0]], None) \<and>
   path_find False [[0, 0, 0, 0]] \<lparr>x = 4, y = 1\<rparr> [\<lparr>x = 1, y = 0\<rparr>, \<lparr>x = 3, y = 0\<rparr>] \<lparr>x = 0, y = 0\<rparr> None
     = Some (True, [[1, 2, 3, 4]], None)"
  by code_simp

text \<open>
  C2 (amended). On a table of the stated dimensions with \<open>width * height \<ge> 1\<close>: if
  \<open>path_find\<close> returns success then afterwards each move number \<open>1..width * height\<close>
  is held by exactly one cell of the grid, the start cell holds 1, the cell holding
  \<open>k + 1\<close> is the cell holding \<open>k\<close> plus an offset of the move table, and every cell
  of the grid holds one of the numbers: the grid describes a Hamiltonian path from the
  start. For \<open>width * height \<le> 0\<close> success tells nothing of the start cell: on the
  0 by 0 board \<open>path_find\<close> returns success and no cell holds 1.
\<close>

theorem success_is_hamiltonian_path:
  assumes "table_ok t table_size" and "1 \<le> x table_size * y table_size"
    and "path_find en t table_size delta pos iter = Some (True, t', iter')"
  shows "(\<forall>k. 1 \<le> k \<and> k \<le> x table_size * y table_size \<longrightarrow>
            (\<exists>!p. in_bounds table_size p \<and> get_cell t' p = Some k)) \<and>
         get_cell t' pos = Some 1 \<and>
         (\<forall>k p q. 1 \<le> k \<and> k < x table_size * y table_size \<and>
                  get_cell t' p = Some k \<and> get_cell t' q = Some (k + 1) \<longrightarrow>
                  (\<exists>d \<in> set delta. q = new_pos p d)) \<and>
         (\<forall>p. in_bounds table_size p \<longrightarrow>
              (\<exists>k. 1 \<le> k \<and> k \<le> x table_size * y table_size \<and> get_cell t' p = Some k))"
proof -
  let ?n = "x table_size * y table_size"
  from path_find_success [OF assms(1,3)] assms(2)
  have tok': "table_ok t' table_size" and sp: "simple_path t' table_size delta ?n"
    and st: "in_bounds table_size pos" "val t' pos = 1"
    by (simp_all add: max_def)
  note g = get_cell_iff [OF tok']
  from sp have rng: "\<And>p. in_bounds table_size p \<Longrightarrow> 0 \<le> val t' p \<and> val t' p \<le> ?n"
    and uni: "\<And>k. 1 \<le> k \<Longrightarrow> k \<le> ?n \<Longrightarrow> \<exists>!p. in_bounds table_size p \<and> val t' p = k"
    and adj: "\<And>p q. in_bounds table_size p \<Longrightarrow> in_bounds table_size q \<Longrightarrow> 1 \<le> val t' p \<Longrightarrow>
                val t' q = val t' p + 1 \<Longrightarrow> \<exists>d \<in> set delta. q = new_pos p d"
    by (auto simp: simple_path_def)
  have a: "\<forall>k. 1 \<le> k \<and> k \<le> ?n \<longrightarrow> (\<exists>!p. in_bounds table_size p \<and> get_cell t' p = Some k)"
    using uni by (simp add: g)
  have b: "get_cell t' pos = Some 1" using st by (simp add: g)
  have c: "\<forall>k p q. 1 \<le> k \<and> k < ?n \<and> get_cell t' p = Some k \<and> get_cell t' q = Some (k + 1) \<longrightarrow>
                  (\<exists>d \<in> set delta. q = new_pos p d)"
    using adj by (simp add: g)
  have d: "\<forall>p. in_bounds table_size p \<longrightarrow> (\<exists>k. 1 \<le> k \<and> k \<le> ?n \<and> get_cell t' p = Some k)"
  proof (intro allI impI)
    fix p assume p: "in_bounds table_size p"
    from full_board [OF sp p] rng [OF p] p
    show "\<exists>k. 1 \<le> k \<and> k \<le> ?n \<and> get_cell t' p = Some k" by (simp add: g)
  qed
  from a b c d show ?thesis by blast
qed

theorem success_is_hamiltonian_path_witness:
  "table_ok [[0, 0, 0]] \<lparr>x = 3, y = 1\<rparr> \<and> (1 :: int) \<le> 3 * 1 \<and>
   path_find True [[0, 0, 0]] \<lparr>x = 3, y = 1\<rparr> [\<lparr>x = 2, y = 0\<rparr>, \<lparr>x = -1, y = 0\<rparr>] \<lparr>x = 0, y = 0\<rparr> None
     = Some (True, [[1, 3, 2]], None) \<and>
   get_cell [[1, 3, 2]] \<lparr>x = 0, y = 0\<rparr> = Some 1 \<and>
   (\<exists>d \<in> set [\<lparr>x = 2, y = 0\<rparr>, \<lparr>x = -1, y = 0\<rparr>]. \<lparr>x = 1, y = 0\<rparr> = new_pos \<lparr>x = 2, y = 0\<rparr> d)"
proof -
  have ok: "table_ok [[0, 0, 0]] \<lparr>x = 3, y = 1\<rparr>"
    by (simp add: table_ok_def)
  have n: "1 \<le> x \<lparr>x = 3, y = 1\<rparr> * y \<lparr>x = 3, y = 1\<rparr>" by simp
  have e: "path_find True [[0, 0, 0]] \<lparr>x = 3, y = 1\<rparr> [\<lparr>x = 2, y = 0\<rparr>, \<lparr>x = -1, y = 0\<rparr>] \<lparr>x = 0, y = 0\<rparr> None
     = Some (True, [[1, 3, 2]], None)"
    by code_simp
  note h = success_is_hamiltonian_path [OF ok n e]
  from h have s: "get_cell [[1, 3, 2]] \<lparr>x = 0, y = 0\<rparr> = Some 1" by blast
  have c2: "get_cell [[1, 3, 2]] \<lparr>x = 2, y = 0\<rparr> = Some 2"
    and c3: "get_cell [[1, 3, 2]] \<lparr>x = 1, y = 0\<rparr> = Some (2 + 1)"
    by (simp_all add: get_cell_def cell_ok_def val_def)
  from h have "\<forall>k p q. 1 \<le> k \<and> k < x \<lparr>x = 3, y = 1\<rparr> * y \<lparr>x = 3, y = 1\<rparr> \<and>
                  get_cell [[1, 3, 2]] p = Some k \<and> get_cell [[1, 3, 2]] q = Some (k + 1) \<longrightarrow>
                  (\<exists>d \<in> set [\<lparr>x = 2, y = 0\<rparr>, \<lparr>x = -1, y = 0\<rparr>]. q = new_pos p d)"
    by blast
  then have "1 \<le> (2 :: int) \<and> 2 < x \<lparr>x = 3, y = 1\<rparr> * y \<lparr>x = 3, y = 1\<rparr> \<and>
                  get_cell [[1, 3, 2]] \<lparr>x = 2, y = 0\<rparr> = Some 2 \<and>
                  get_cell [[1, 3, 2]] \<lparr>x = 1, y = 0\<rparr> = Some (2 + 1) \<longrightarrow>
                  (\<exists>d \<in> set [\<lparr>x = 2, y = 0\<rparr>, \<lparr>x = -1, y = 0\<rparr>]. \<lparr>x = 1, y = 0\<rparr> = new_pos \<lparr>x = 2, y = 0\<rparr> d)"
    by blast
  with c2 c3 have "\<exists>d \<in> set [\<lparr>x = 2, y = 0\<rparr>, \<lparr>x = -1, y = 0\<rparr>]. \<lparr>x = 1, y = 0\<rparr> = new_pos \<lparr>x = 2, y = 0\<rparr> d"
    by simp
  with ok e s show ?thesis by simp
qed

theorem success_is_hamiltonian_path_counterexample:
  "path_find True [] \<lparr>x = 0, y = 0\<rparr> delta_default \<lparr>x = 0, y = 0\<rparr> None = Some (True, [], None) \<and>
   get_cell [] \<lparr>x = 0, y = 0\<rparr> \<noteq> Some 1"
  by (simp add: path_find_def path_iter.simps get_cell_def cell_ok_def)

text \<open>
  C3. A call of the recursive step that returns failure returns the table it was given,
  whatever that table is; this covers the exit taken when the look-ahead finds a blocked
  neighbour. Hence, on a table of the stated dimensions, \<open>path_find\<close> returning failure
  leaves every cell 0.
\<close>

theorem failure_leaves_grid_unchanged:
  "(path_iter en t table_size delta pos moves iter = Some (False, t', iter') \<longrightarrow> t' = t) \<and>
   (table_ok t table_size \<and> path_find en t table_size delta pos iter = Some (False, t', iter')
      \<longrightarrow> t' = zero_table table_size \<and> list_all (list_all (\<lambda>v. v = 0)) t')"
proof (intro conjI impI)
  assume "path_iter en t table_size delta pos moves iter = Some (False, t', iter')"
  with restore_aux(1) [of en t table_size delta pos moves iter] show "t' = t" by blast
next
  assume a: "table_ok t table_size \<and>
             path_find en t table_size delta pos iter = Some (False, t', iter')"
  then have tok: "table_ok t table_size"
    and pf: "path_find en t table_size delta pos iter = Some (False, t', iter')"
    by simp_all
  from pf have "path_iter en (zero_table table_size) table_size delta pos 0 (map_option (\<lambda>n. 0) iter)
               = Some (False, t', iter')"
    by (simp add: path_find_ok [OF tok])
  with restore_aux(1) show z: "t' = zero_table table_size" by blast
  show "list_all (list_all (\<lambda>v. v = 0)) t'" unfolding z by (rule zero_table_cells)
qed

theorem failure_leaves_grid_unchanged_witness:
  "table_ok [[5, 5, 5]] \<lparr>x = 3, y = 1\<rparr> \<and>
   path_find False [[5, 5, 5]] \<lparr>x = 3, y = 1\<rparr> [\<lparr>x = 1, y = 0\<rparr>] \<lparr>x = 1, y = 0\<rparr> (Some 9)
     = Some (False, [[0, 0, 0]], Some 3) \<and>
   [[0, 0, 0]] = zero_table \<lparr>x = 3, y = 1\<rparr> \<and>
   path_iter True [[1, 0, 0, 0]] \<lparr>x = 4, y = 1\<rparr> [\<lparr>x = 1, y = 0\<rparr>, \<lparr>x = -1, y = 0\<rparr>] \<lparr>x = 2, y = 0\<rparr> 1 None
     = Some (False, [[1, 0, 0, 0]], None)"
proof -
  have ok: "table_ok [[5, 5, 5]] \<lparr>x = 3, y = 1\<rparr>"
    by (simp add: table_ok_def)
  have e: "path_find False [[5, 5, 5]] \<lparr>x = 3, y = 1\<rparr> [\<lparr>x = 1, y = 0\<rparr>] \<lparr>x = 1, y = 0\<rparr> (Some 9)
     = Some (False, [[0, 0, 0]], Some 3)"
    by code_simp
  have f: "path_iter True [[1, 0, 0, 0]] \<lparr>x = 4, y = 1\<rparr> [\<lparr>x = 1, y = 0\<rparr>, \<lparr>x = -1, y = 0\<rparr>] \<lparr>x = 2, y = 0\<rparr> 1 None
     = Some (False, [[1, 0, 0, 0]], None)"
    by code_simp
  from failure_leaves_grid_unchanged
         [of False "[[5, 5, 5]]" "\<lparr>x = 3, y = 1\<rparr>" "[\<lparr>x = 1, y = 0\<rparr>]" "\<lparr>x = 1, y = 0\<rparr>" 0 "Some 9"
             "[[0, 0, 0]]" "Some 3"] ok e
  have "[[0, 0, 0]] = zero_table \<lparr>x = 3, y = 1\<rparr>" by blast
  with ok e f show ?thesis by blast
qed

text \<open>
  C4 (amended). With the look-ahead compiled in, in a frame of \<open>path_iter\<close> whose
  candidate cell is available and gets marked: when \<open>moves + 2 < width * height\<close> (at
  least two cells remain after this one) the look-ahead runs, and the frame unmarks the
  cell and fails at once exactly when some offset of the move table leads from \<open>pos\<close> to
  an available neighbour for which \<open>is_blocked\<close> holds; when \<open>moves + 2 \<ge> width * height\<close>
  no look-ahead runs and the frame goes on to the loop over the moves, whatever
  \<open>is_blocked\<close> would answer. The threshold is not \<open>moves + 1 < width * height\<close>: on
  the 2 by 1 board the first frame has \<open>0 + 1 < 2\<close> and a blocked available neighbour,
  and succeeds.
\<close>

theorem pruning_check_threshold:
  assumes "table_ok t table_size" and "moves < x table_size * y table_size"
    and "is_available t table_size pos = Some True"
  shows "\<exists>t1. set_cell t pos (moves + 1) = Some t1 \<and>
           (if moves + 2 < x table_size * y table_size \<and>
               (\<exists>d \<in> set delta. is_available t1 table_size (new_pos pos d) = Some True \<and>
                                is_blocked t1 table_size delta (new_pos pos d) = Some True)
            then set_cell t1 pos 0 = Some t \<and>
                 path_iter True t table_size delta pos moves iter =
                   Some (False, t, map_option (\<lambda>n. n + 1) iter)
            else path_iter True t table_size delta pos moves iter =
                   path_moves True t1 table_size delta delta pos (moves + 1)
                     (map_option (\<lambda>n. n + 1) iter))"
proof -
  let ?t1 = "upd t pos (moves + 1)"
  from assms(3) have ib: "in_bounds table_size pos" and ok: "cell_ok t pos"
    and z: "val t pos = 0"
    using is_available_True by blast+
  have av: "avail t table_size pos" using ib z by (simp add: avail_def)
  have tok1: "table_ok ?t1 table_size" using assms(1) by (rule table_ok_upd)
  have s: "set_cell t pos (moves + 1) = Some ?t1" using ok by (simp add: set_cell_def)
  have b: "(\<exists>d \<in> set delta. is_available ?t1 table_size (new_pos pos d) = Some True \<and>
                is_blocked ?t1 table_size delta (new_pos pos d) = Some True)
           \<longleftrightarrow> blocks_neighbour ?t1 table_size delta pos"
    by (simp add: is_available_ok [OF tok1] is_blocked_ok [OF tok1] blocks_neighbour_def)
  have u: "set_cell ?t1 pos 0 = Some t"
    using cell_ok_upd [OF ok, of "moves + 1"] upd_restore [OF ok z, of "moves + 1"]
    by (simp add: set_cell_def)
  have c: "moves + 1 < x table_size * y table_size - 1 \<longleftrightarrow> moves + 2 < x table_size * y table_size"
    by auto
  have main: "if moves + 2 < x table_size * y table_size \<and> blocks_neighbour ?t1 table_size delta pos
        then set_cell ?t1 pos 0 = Some t \<and>
             path_iter True t table_size delta pos moves iter =
               Some (False, t, map_option (\<lambda>n. n + 1) iter)
        else path_iter True t table_size delta pos moves iter =
               path_moves True ?t1 table_size delta delta pos (moves + 1)
                 (map_option (\<lambda>n. n + 1) iter)"
    using assms(2) av u by (simp add: path_iter_ok [OF assms(1)] c)
  show ?thesis
  proof (rule exI [of _ ?t1], rule conjI [OF s])
    show "if moves + 2 < x table_size * y table_size \<and>
               (\<exists>d \<in> set delta. is_available ?t1 table_size (new_pos pos d) = Some True \<and>
                                is_blocked ?t1 table_size delta (new_pos pos d) = Some True)
            then set_cell ?t1 pos 0 = Some t \<and>
                 path_iter True t table_size delta pos moves iter =
                   Some (False, t, map_option (\<lambda>n. n + 1) iter)
            else path_iter True t table_size delta pos moves iter =
                   path_moves True ?t1 table_size delta delta pos (moves + 1)
                     (map_option (\<lambda>n. n + 1) iter)"
      unfolding b by (rule main)
  qed
qed

theorem pruning_check_threshold_witness:
  "table_ok [[0, 0, 0, 0]] \<lparr>x = 4, y = 1\<rparr> \<and> (0 :: int) < 4 * 1 \<and>
   is_available [[0, 0, 0, 0]] \<lparr>x = 4, y = 1\<rparr> \<lparr>x = 2, y = 0\<rparr> = Some True \<and>
   path_iter True [[0, 0, 0, 0]] \<lparr>x = 4, y = 1\<rparr> [\<lparr>x = 1, y = 0\<rparr>] \<lparr>x = 2, y = 0\<rparr> 0 (Some 0)
     = Some (False, [[0, 0, 0, 0]], Some 1)"
proof -
  have ok: "table_ok [[0, 0, 0, 0]] \<lparr>x = 4, y = 1\<rparr>"
    by (simp add: table_ok_def)
  have a: "is_available [[0, 0, 0, 0]] \<lparr>x = 4, y = 1\<rparr> \<lparr>x = 2, y = 0\<rparr> = Some True"
    by (simp add: is_available_def get_cell_def cell_ok_def val_def)
  have lt: "0 < x \<lparr>x = 4, y = 1\<rparr> * y \<lparr>x = 4, y = 1\<rparr>" by simp
  from pruning_check_threshold [OF ok lt a, of "[\<lparr>x = 1, y = 0\<rparr>]" "Some 0"]
  have "path_iter True [[0, 0, 0, 0]] \<lparr>x = 4, y = 1\<rparr> [\<lparr>x = 1, y = 0\<rparr>] \<lparr>x = 2, y = 0\<rparr> 0 (Some 0)
     = Some (False, [[0, 0, 0, 0]], Some 1)"
    by (simp add: set_cell_def cell_ok_def upd_def new_pos_def is_available_def get_cell_def val_def)
  with ok a show ?thesis by simp
qed

theorem pruning_check_threshold_counterexample:
  "(0 :: int) + 1 < 2 * 1 \<and>
   set_cell [[0, 0]] \<lparr>x = 0, y = 0\<rparr> (0 + 1) = Some [[1, 0]] \<and>
   is_available [[1, 0]] \<lparr>x = 2, y = 1\<rparr> (new_pos \<lparr>x = 0, y = 0\<rparr> \<lparr>x = 1, y = 0\<rparr>) = Some True \<and>
   is_blocked [[1, 0]] \<lparr>x = 2, y = 1\<rparr> [\<lparr>x = 1, y = 0\<rparr>] (new_pos \<lparr>x = 0, y = 0\<rparr> \<lparr>x = 1, y = 0\<rparr>) = Some True \<and>
   path_iter True [[0, 0]] \<lparr>x = 2, y = 1\<rparr> [\<lparr>x = 1, y = 0\<rparr>] \<lparr>x = 0, y = 0\<rparr> 0 None = Some (True, [[1, 2]], None)"
  by code_simp

text \<open>
  C5. During a search started by \<open>path_find\<close> on a table of the stated dimensions the
  marked cells form a simple path. Before every call of \<open>path_iter\<close> the cells holding
  \<open>1..moves\<close> are pairwise distinct, every other cell is 0, and the cell holding \<open>k + 1\<close>
  is the cell holding \<open>k\<close> plus an offset of the move table; when the call marks its
  cell the same holds with \<open>moves + 1\<close>, and unmarking that cell gives back the table of
  entry; the call returns, and after it the predicate holds again (for \<open>moves\<close> after a
  failure, for all \<open>width * height\<close> cells after a success). Between the recursive calls
  of a frame the predicate holds for the table the loop works on, whose unmarking
  satisfies it for one cell less.
\<close>

theorem marked_cells_form_simple_path:
  assumes "table_ok t0 table_size"
  shows "(search_call en table_size delta t0 start iter0 t pos moves iter \<longrightarrow>
            simple_path t table_size delta moves \<and>
            (\<forall>t1. \<not> x table_size * y table_size \<le> moves \<and>
                  is_available t table_size pos = Some True \<and>
                  set_cell t pos (moves + 1) = Some t1 \<longrightarrow>
                  simple_path t1 table_size delta (moves + 1) \<and> set_cell t1 pos 0 = Some t) \<and>
            (\<exists>r t' iter'. path_iter en t table_size delta pos moves iter = Some (r, t', iter') \<and>
               simple_path t' table_size delta
                 (if r then max moves (x table_size * y table_size) else moves))) \<and>
         (search_loop en table_size delta t0 start iter0 t ds pos moves iter \<longrightarrow>
            simple_path t table_size delta moves \<and> get_cell t pos = Some moves \<and>
            (\<exists>t'. set_cell t pos 0 = Some t' \<and> simple_path t' table_size delta (moves - 1)))"
proof (intro conjI impI)
  assume sc: "search_call en table_size delta t0 start iter0 t pos moves iter"
  from search_invariant(1) [OF assms sc]
  have tok: "table_ok t table_size" and sp: "simple_path t table_size delta moves"
    and fo: "follows t table_size delta pos moves" and m0: "0 \<le> moves"
    by simp_all
  show "simple_path t table_size delta moves" by (rule sp)
  show "\<forall>t1. \<not> x table_size * y table_size \<le> moves \<and>
                  is_available t table_size pos = Some True \<and>
                  set_cell t pos (moves + 1) = Some t1 \<longrightarrow>
                  simple_path t1 table_size delta (moves + 1) \<and> set_cell t1 pos 0 = Some t"
  proof (intro allI impI)
    fix t1
    assume h: "\<not> x table_size * y table_size \<le> moves \<and>
                  is_available t table_size pos = Some True \<and>
                  set_cell t pos (moves + 1) = Some t1"
    then have ib: "in_bounds table_size pos" and ok: "cell_ok t pos" and z: "val t pos = 0"
      using is_available_True by blast+
    have av: "avail t table_size pos" using ib z by (simp add: avail_def)
    from h ok have t1: "t1 = upd t pos (moves + 1)" by (simp add: set_cell_def)
    have "simple_path t1 table_size delta (moves + 1)"
      unfolding t1 using tok sp fo av m0 by (rule simple_path_mark)
    moreover have "set_cell t1 pos 0 = Some t"
      unfolding t1 using cell_ok_upd [OF ok, of "moves + 1"] upd_restore [OF ok z, of "moves + 1"]
      by (simp add: set_cell_def)
    ultimately show "simple_path t1 table_size delta (moves + 1) \<and> set_cell t1 pos 0 = Some t"
      by simp
  qed
  from tok obtain r t' it' where
    pi: "path_iter en t table_size delta pos moves iter = Some (r, t', it')"
    and rst: "\<not> r \<Longrightarrow> t' = t"
    and ir: "iter_result en t table_size delta pos moves = Some (r, t')"
    by (rule path_iter_total [where en = en and delta = delta and pos = pos and m = moves
          and it = iter]) blast
  have "simple_path t' table_size delta (if r then max moves (x table_size * y table_size) else moves)"
  proof (cases r)
    case True
    with ir search_success [OF tok sp fo m0, of en t'] show ?thesis by simp
  next
    case False
    with rst sp show ?thesis by simp
  qed
  with pi show "\<exists>r t' iter'. path_iter en t table_size delta pos moves iter = Some (r, t', iter') \<and>
               simple_path t' table_size delta
                 (if r then max moves (x table_size * y table_size) else moves)"
    by blast
next
  assume sl: "search_loop en table_size delta t0 start iter0 t ds pos moves iter"
  from search_invariant(2) [OF assms sl]
  have tok: "table_ok t table_size" and sp: "simple_path t table_size delta moves"
    and ib: "in_bounds table_size pos" and v: "val t pos = moves"
    and un: "simple_path (upd t pos 0) table_size delta (moves - 1)"
    by simp_all
  show "simple_path t table_size delta moves" by (rule sp)
  show "get_cell t pos = Some moves" using tok ib v by (simp add: get_cell_ok)
  show "\<exists>t'. set_cell t pos 0 = Some t' \<and> simple_path t' table_size delta (moves - 1)"
    using un cell_ok_bounds [OF tok ib] by (simp add: set_cell_def)
qed

theorem marked_cells_form_simple_path_witness:
  "table_ok [[5, 5]] \<lparr>x = 2, y = 1\<rparr> \<and>
   search_loop True \<lparr>x = 2, y = 1\<rparr> [\<lparr>x = 1, y = 0\<rparr>] [[5, 5]] \<lparr>x = 0, y = 0\<rparr> None
     [[1, 0]] [\<lparr>x = 1, y = 0\<rparr>] \<lparr>x = 0, y = 0\<rparr> 1 None \<and>
   search_call True \<lparr>x = 2, y = 1\<rparr> [\<lparr>x = 1, y = 0\<rparr>] [[5, 5]] \<lparr>x = 0, y = 0\<rparr> None
     [[1, 0]] \<lparr>x = 1, y = 0\<rparr> 1 None \<and>
   simple_path [[1, 0]] \<lparr>x = 2, y = 1\<rparr> [\<lparr>x = 1, y = 0\<rparr>] 1 \<and>
   (\<exists>r t' iter'. path_iter True [[1, 0]] \<lparr>x = 2, y = 1\<rparr> [\<lparr>x = 1, y = 0\<rparr>] \<lparr>x = 1, y = 0\<rparr> 1 None
       = Some (r, t', iter') \<and>
       simple_path t' \<lparr>x = 2, y = 1\<rparr> [\<lparr>x = 1, y = 0\<rparr>]
         (if r then max 1 (x \<lparr>x = 2, y = 1\<rparr> * y \<lparr>x = 2, y = 1\<rparr>) else 1))"
proof -
  let ?sz = "\<lparr>x = 2, y = 1\<rparr>" and ?d = "[\<lparr>x = 1, y = 0\<rparr>]" and ?s = "\<lparr>x = 0, y = 0\<rparr>"
  have ok: "table_ok [[5, 5]] ?sz"
    by (simp add: table_ok_def)
  have z: "zero_rows [[5, 5]] ?sz [0..<nat (y ?sz)] = Some [[0, 0]]"
    by code_simp
  have c0: "search_call True ?sz ?d [[5, 5]] ?s None [[0, 0]] ?s 0 (map_option (\<lambda>n. 0) (None :: int option))"
    using z by (rule first_call)
  have l1: "search_loop True ?sz ?d [[5, 5]] ?s None [[1, 0]] ?d ?s (0 + 1)
              (map_option (\<lambda>n. n + 1) (map_option (\<lambda>n. 0) (None :: int option)))"
    using c0
  proof (rule enter_loop)
    show "\<not> x ?sz * y ?sz \<le> 0" by simp
    show "is_available [[0, 0]] ?sz ?s = Some True"
      by (simp add: is_available_def get_cell_def cell_ok_def val_def)
    show "set_cell [[0, 0]] ?s (0 + 1) = Some [[1, 0]]"
      by (simp add: set_cell_def cell_ok_def upd_def)
    show "(if True \<and> 0 + 1 < x ?sz * y ?sz - 1
           then check_blocked [[1, 0]] ?sz ?d ?d ?s else Some False) = Some False"
      by simp
  qed
  then have l1': "search_loop True ?sz ?d [[5, 5]] ?s None [[1, 0]] ?d ?s 1 None" by simp
  then have c1: "search_call True ?sz ?d [[5, 5]] ?s None [[1, 0]] (new_pos ?s \<lparr>x = 1, y = 0\<rparr>) 1 None"
    by (rule next_call)
  then have c1': "search_call True ?sz ?d [[5, 5]] ?s None [[1, 0]] \<lparr>x = 1, y = 0\<rparr> 1 None"
    by (simp add: new_pos_def)
  from marked_cells_form_simple_path [OF ok, of True ?d ?s None "[[1, 0]]" "\<lparr>x = 1, y = 0\<rparr>" 1 None] c1'
  have "simple_path [[1, 0]] ?sz ?d 1 \<and>
        (\<exists>r t' iter'. path_iter True [[1, 0]] ?sz ?d \<lparr>x = 1, y = 0\<rparr> 1 None = Some (r, t', iter') \<and>
           simple_path t' ?sz ?d (if r then max 1 (x ?sz * y ?sz) else 1))"
    by blast
  with ok l1' c1' show ?thesis by blast
qed

text \<open>
  C6 (amended). On a table of the stated dimensions: when \<open>width * height \<le> 0\<close>,
  \<open>path_find\<close> succeeds in its first iteration for every start position and marks no
  cell; when \<open>width * height = 1\<close> and the start position lies inside the table (the
  board is 1 by 1 and the start is its only cell) and the move table is not empty, it
  succeeds in two iterations with that cell marked 1; when \<open>width * height = 1\<close> and the
  start position lies outside the table it fails in its first iteration with every cell 0.
  Success for every start position, inside the table or not, does not hold: the search
  fails on the 1 by 1 board with the start \<open>(5, 5)\<close>.
\<close>

theorem small_board:
  assumes "table_ok t table_size"
  shows "(x table_size * y table_size \<le> 0 \<longrightarrow>
            path_find en t table_size delta pos iter =
              Some (True, zero_table table_size, map_option (\<lambda>n. 1) iter)) \<and>
         (x table_size * y table_size = 1 \<and> in_bounds table_size pos \<and> delta \<noteq> [] \<longrightarrow>
            path_find en t table_size delta pos iter = Some (True, [[1]], map_option (\<lambda>n. 2) iter)) \<and>
         (x table_size * y table_size = 1 \<and> \<not> in_bounds table_size pos \<longrightarrow>
            path_find en t table_size delta pos iter =
              Some (False, zero_table table_size, map_option (\<lambda>n. 1) iter))"
proof (intro conjI impI)
  assume "x table_size * y table_size \<le> 0"
  then show "path_find en t table_size delta pos iter =
              Some (True, zero_table table_size, map_option (\<lambda>n. 1) iter)"
    using assms
    by (simp add: path_find_ok path_iter_ok [OF table_ok_zero] option.map_comp comp_def)
next
  assume a: "x table_size * y table_size = 1 \<and> \<not> in_bounds table_size pos"
  then show "path_find en t table_size delta pos iter =
              Some (False, zero_table table_size, map_option (\<lambda>n. 1) iter)"
    using assms
    by (simp add: path_find_ok path_iter_ok [OF table_ok_zero] avail_def option.map_comp comp_def)
next
  assume a: "x table_size * y table_size = 1 \<and> in_bounds table_size pos \<and> delta \<noteq> []"
  then have u: "x table_size = 1" "y table_size = 1" "pos = \<lparr>x = 0, y = 0\<rparr>"
    using unit_board [of table_size pos] by auto
  from a obtain d ds where dl: "delta = d # ds" by (cases delta) auto
  let ?z = "zero_table table_size"
  have z: "?z = [[0]]" using u by (simp add: zero_table_def)
  have m: "upd ?z pos 1 = [[1]]" using u by (simp add: z upd_def)
  have av: "avail ?z table_size pos" using a by (simp add: avail_def val_zero)
  have "table_ok (upd ?z pos 1) table_size"
    using table_ok_zero by (rule table_ok_upd)
  then have tok1: "table_ok [[1]] table_size" by (simp add: m)
  have "path_iter en ?z table_size delta pos 0 (map_option (\<lambda>n. 0) iter) =
        path_moves en (upd ?z pos 1) table_size delta delta pos 1
          (map_option (\<lambda>n. n + 1) (map_option (\<lambda>n. 0) iter))"
    using a av by (simp add: path_iter_ok [OF table_ok_zero])
  also have "\<dots> = Some (True, [[1]], map_option (\<lambda>n. 2) iter)"
    using a by (simp add: dl path_iter_ok [OF tok1] m option.map_comp comp_def)
  finally show "path_find en t table_size delta pos iter = Some (True, [[1]], map_option (\<lambda>n. 2) iter)"
    using assms by (simp add: path_find_ok)
qed

theorem small_board_witness:
  "table_ok [[9]] \<lparr>x = 1, y = 1\<rparr> \<and>
   path_find True [[9]] \<lparr>x = 1, y = 1\<rparr> delta_default \<lparr>x = 0, y = 0\<rparr> (Some 7) = Some (True, [[1]], Some 2) \<and>
   path_find True [[9]] \<lparr>x = 1, y = 1\<rparr> delta_default \<lparr>x = 5, y = 5\<rparr> (Some 7) = Some (False, [[0]], Some 1) \<and>
   table_ok [] \<lparr>x = 3, y = 0\<rparr> \<and>
   path_find True [] \<lparr>x = 3, y = 0\<rparr> delta_default \<lparr>x = 0, y = 0\<rparr> (Some 7) = Some (True, [], Some 1)"
proof -
  have ok: "table_ok [[9]] \<lparr>x = 1, y = 1\<rparr>" and ok0: "table_ok [] \<lparr>x = 3, y = 0\<rparr>"
    by (simp_all add: table_ok_def)
  show ?thesis
    using ok ok0
      small_board [OF ok, of True delta_default "\<lparr>x = 0, y = 0\<rparr>" "Some 7"]
      small_board [OF ok, of True delta_default "\<lparr>x = 5, y = 5\<rparr>" "Some 7"]
      small_board [OF ok0, of True delta_default "\<lparr>x = 0, y = 0\<rparr>" "Some 7"]
    by (simp add: in_bounds_def zero_table_def delta_default_def)
qed

theorem small_board_counterexample:
  "1 * 1 \<le> (1 :: int) \<and>
   path_find True [[0]] \<lparr>x = 1, y = 1\<rparr> delta_default \<lparr>x = 5, y = 5\<rparr> (Some 0) = Some (False, [[0]], Some 1)"
  by (simp add: path_find_def path_iter.simps is_available_def set_cell_def cell_ok_def upd_def)

text \<open>
  C7. Calling \<open>path_find\<close> a second time with the same arguments, on the table and the
  counter the first call left, returns the same flag and leaves the same table (and the
  same iteration count), whether the search succeeds or fails.
\<close>

theorem path_find_twice:
  assumes "table_ok t table_size"
  shows "\<exists>found t' iter'.
           path_find en t table_size delta pos iter = Some (found, t', iter') \<and>
           path_find en t' table_size delta pos iter' = Some (found, t', iter')"
proof -
  let ?z = "zero_table table_size"
  from table_ok_zero obtain r t' it' where
    a: "path_iter en ?z table_size delta pos 0 (map_option (\<lambda>n. 0) iter) = Some (r, t', it')"
    and tok': "table_ok t' table_size"
    by (rule path_iter_total)
  from path_iter_counter [OF table_ok_zero a]
  have "map_option (\<lambda>n. 0 :: int) it' = map_option (\<lambda>n. 0) iter"
    by (cases it'; cases iter) auto
  with a have "path_find en t' table_size delta pos it' = Some (r, t', it')"
    using tok' by (simp add: path_find_ok)
  moreover from a have "path_find en t table_size delta pos iter = Some (r, t', it')"
    using assms by (simp add: path_find_ok)
  ultimately show ?thesis by blast
qed

theorem path_find_twice_witness:
  "table_ok [[7, 7, 7]] \<lparr>x = 3, y = 1\<rparr> \<and>
   path_find True [[7, 7, 7]] \<lparr>x = 3, y = 1\<rparr> [\<lparr>x = 1, y = 0\<rparr>] \<lparr>x = 0, y = 0\<rparr> (Some 5)
     = Some (True, [[1, 2, 3]], Some 4) \<and>
   path_find True [[1, 2, 3]] \<lparr>x = 3, y = 1\<rparr> [\<lparr>x = 1, y = 0\<rparr>] \<lparr>x = 0, y = 0\<rparr> (Some 4)
     = Some (True, [[1, 2, 3]], Some 4)"
proof -
  have ok: "table_ok [[7, 7, 7]] \<lparr>x = 3, y = 1\<rparr>"
    by (simp add: table_ok_def)
  have e: "path_find True [[7, 7, 7]] \<lparr>x = 3, y = 1\<rparr> [\<lparr>x = 1, y = 0\<rparr>] \<lparr>x = 0, y = 0\<rparr> (Some 5)
     = Some (True, [[1, 2, 3]], Some 4)"
    by code_simp
  from path_find_twice [OF ok, of True "[\<lparr>x = 1, y = 0\<rparr>]" "\<lparr>x = 0, y = 0\<rparr>" "Some 5"] e
  have "path_find True [[1, 2, 3]] \<lparr>x = 3, y = 1\<rparr> [\<lparr>x = 1, y = 0\<rparr>] \<lparr>x = 0, y = 0\<rparr> (Some 4)
     = Some (True, [[1, 2, 3]], Some 4)"
    by auto
  with ok e show ?thesis by blast
qed

text \<open>
  C8. On a table of the stated dimensions \<open>path_find\<close> run with the move table reversed
  returns the same flag as with the move table as given (with the look-ahead compiled in
  or not): whether a tour is found does not depend on the order of the move table. The
  tables and the iteration counts of the two runs may differ.
\<close>

theorem reversed_move_table:
  assumes "table_ok t table_size"
  shows "\<exists>found t1 iter1 t2 iter2.
           path_find en t table_size delta pos iter = Some (found, t1, iter1) \<and>
           path_find en t table_size (rev delta) pos iter = Some (found, t2, iter2)"
proof -
  let ?z = "zero_table table_size"
  let ?i = "map_option (\<lambda>n. 0 :: int) iter"
  from table_ok_zero obtain r1 t1 i1 where
    a: "path_iter en ?z table_size delta pos 0 ?i = Some (r1, t1, i1)"
    and a': "iter_result en ?z table_size delta pos 0 = Some (r1, t1)"
    by (rule path_iter_total)
  from table_ok_zero obtain r2 t2 i2 where
    b: "path_iter en ?z table_size (rev delta) pos 0 ?i = Some (r2, t2, i2)"
    and b': "iter_result en ?z table_size (rev delta) pos 0 = Some (r2, t2)"
    by (rule path_iter_total)
  have "set delta = set (rev delta)" by simp
  from found_depends_on_set [OF this table_ok_zero, of en table_size pos 0] a' b'
  have "r1 = r2" by auto
  with a b show ?thesis using assms by (simp add: path_find_ok)
qed

theorem reversed_move_table_witness:
  "table_ok [[0, 0, 0]] \<lparr>x = 3, y = 1\<rparr> \<and>
   path_find True [[0, 0, 0]] \<lparr>x = 3, y = 1\<rparr> [\<lparr>x = 2, y = 0\<rparr>, \<lparr>x = -1, y = 0\<rparr>] \<lparr>x = 0, y = 0\<rparr> None
     = Some (True, [[1, 3, 2]], None) \<and>
   (\<exists>t2. path_find True [[0, 0, 0]] \<lparr>x = 3, y = 1\<rparr> (rev [\<lparr>x = 2, y = 0\<rparr>, \<lparr>x = -1, y = 0\<rparr>]) \<lparr>x = 0, y = 0\<rparr> None
     = Some (True, t2, None))"
proof -
  have ok: "table_ok [[0, 0, 0]] \<lparr>x = 3, y = 1\<rparr>"
    by (simp add: table_ok_def)
  have e: "path_find True [[0, 0, 0]] \<lparr>x = 3, y = 1\<rparr> [\<lparr>x = 2, y = 0\<rparr>, \<lparr>x = -1, y = 0\<rparr>] \<lparr>x = 0, y = 0\<rparr> None
     = Some (True, [[1, 3, 2]], None)"
    by code_simp
  from reversed_move_table [OF ok, of True "[\<lparr>x = 2, y = 0\<rparr>, \<lparr>x = -1, y = 0\<rparr>]" "\<lparr>x = 0, y = 0\<rparr>" None]
  obtain found t1 iter1 t2 iter2 where
    f: "path_find True [[0, 0, 0]] \<lparr>x = 3, y = 1\<rparr> [\<lparr>x = 2, y = 0\<rparr>, \<lparr>x = -1, y = 0\<rparr>] \<lparr>x = 0, y = 0\<rparr> None
          = Some (found, t1, iter1)"
    and g: "path_find True [[0, 0, 0]] \<lparr>x = 3, y = 1\<rparr> (rev [\<lparr>x = 2, y = 0\<rparr>, \<lparr>x = -1, y = 0\<rparr>]) \<lparr>x = 0, y = 0\<rparr> None
          = Some (found, t2, iter2)"
    by blast
  from f e have "found = True" by simp
  moreover from ok g path_iter_counter [OF table_ok_zero, of True "\<lparr>x = 3, y = 1\<rparr>" _ "\<lparr>x = 0, y = 0\<rparr>" 0 None found t2 iter2]
  have "iter2 = None" by (simp add: path_find_ok)
  ultimately show ?thesis using ok e g by blast
qed

text \<open>
  C9. On a table of the stated dimensions \<open>is_blocked\<close> returns true if and only if none
  of the positions \<open>pos + d\<close>, \<open>d\<close> an offset of the move table, is available, where
  available means what \<open>is_available\<close> answers, namely inside the table and holding 0.
  The table is an argument of \<open>is_blocked\<close> and not part of its result (the source takes
  it as \<^verbatim>\<open>const int **\<close> and assigns to no cell), so the grid after the call is the
  grid before it.
\<close>

theorem is_blocked_iff_none_available:
  assumes "table_ok t table_size"
  shows "\<exists>b. is_blocked t table_size delta pos = Some b \<and>
           (b \<longleftrightarrow> (\<forall>d \<in> set delta. is_available t table_size (new_pos pos d) = Some False)) \<and>
           (b \<longleftrightarrow> \<not> (\<exists>d \<in> set delta. in_bounds table_size (new_pos pos d) \<and>
                          get_cell t (new_pos pos d) = Some 0))"
proof -
  have "(\<forall>d \<in> set delta. \<not> avail t table_size (new_pos pos d)) \<longleftrightarrow>
        \<not> (\<exists>d \<in> set delta. in_bounds table_size (new_pos pos d) \<and>
                          get_cell t (new_pos pos d) = Some 0)"
    using assms by (auto simp: avail_def get_cell_ok)
  then show ?thesis
    using assms by (simp add: is_blocked_ok is_available_ok)
qed

theorem is_blocked_iff_none_available_witness:
  "table_ok [[0, 1, 0]] \<lparr>x = 3, y = 1\<rparr> \<and>
   is_blocked [[0, 1, 0]] \<lparr>x = 3, y = 1\<rparr> [\<lparr>x = 1, y = 0\<rparr>, \<lparr>x = -1, y = 0\<rparr>] \<lparr>x = 0, y = 0\<rparr>
     = Some True \<and>
   is_blocked [[0, 1, 0]] \<lparr>x = 3, y = 1\<rparr> [\<lparr>x = 1, y = 0\<rparr>, \<lparr>x = -1, y = 0\<rparr>] \<lparr>x = 1, y = 0\<rparr>
     = Some False"
proof -
  have ok: "table_ok [[0, 1, 0]] \<lparr>x = 3, y = 1\<rparr>"
    by (simp add: table_ok_def)
  show ?thesis
    using ok
      is_blocked_iff_none_available [OF ok, of "[\<lparr>x = 1, y = 0\<rparr>, \<lparr>x = -1, y = 0\<rparr>]" "\<lparr>x = 0, y = 0\<rparr>"]
      is_blocked_iff_none_available [OF ok, of "[\<lparr>x = 1, y = 0\<rparr>, \<lparr>x = -1, y = 0\<rparr>]" "\<lparr>x = 1, y = 0\<rparr>"]
    by (simp add: new_pos_def is_available_def get_cell_def cell_ok_def val_def)
qed

text \<open>
  C10. On a table of the stated dimensions no read or write of a cell made by
  \<open>is_available\<close>, \<open>is_blocked\<close>, \<open>path_iter\<close> or \<open>path_find\<close> falls outside the table:
  the result is never \<open>None\<close>, the value of an out-of-range access. A position that
  \<open>is_available\<close> accepts lies in \<open>[0, width) \<times> [0, height)\<close> and can be written.
\<close>

theorem grid_accesses_in_bounds:
  assumes "table_ok t table_size"
  shows "is_available t table_size pos \<noteq> None \<and>
         is_blocked t table_size delta pos \<noteq> None \<and>
         path_iter en t table_size delta pos moves iter \<noteq> None \<and>
         path_find en t table_size delta pos iter \<noteq> None \<and>
         (is_available t table_size pos = Some True \<longrightarrow>
            in_bounds table_size pos \<and> set_cell t pos v \<noteq> None)"
proof -
  have a: "is_available t table_size pos \<noteq> None"
    using assms by (simp add: is_available_ok)
  have b: "is_blocked t table_size delta pos \<noteq> None"
    using assms by (simp add: is_blocked_ok)
  from assms obtain r t' it' where
    "path_iter en t table_size delta pos moves iter = Some (r, t', it')"
    by (rule path_iter_total)
  then have c: "path_iter en t table_size delta pos moves iter \<noteq> None" by simp
  from table_ok_zero obtain r t' it' where
    "path_iter en (zero_table table_size) table_size delta pos 0 (map_option (\<lambda>n. 0) iter)
       = Some (r, t', it')"
    by (rule path_iter_total)
  then have d: "path_find en t table_size delta pos iter \<noteq> None"
    using assms by (simp add: path_find_ok)
  have e: "is_available t table_size pos = Some True \<longrightarrow>
            in_bounds table_size pos \<and> set_cell t pos v \<noteq> None"
    using is_available_True [of t table_size pos] by (auto simp: set_cell_def)
  from a b c d e show ?thesis by blast
qed

theorem grid_accesses_in_bounds_witness:
  "table_ok [[0, 0], [0, 0]] \<lparr>x = 2, y = 2\<rparr> \<and>
   path_find True [[0, 0], [0, 0]] \<lparr>x = 2, y = 2\<rparr> delta_default \<lparr>x = 0, y = 0\<rparr> (Some 0) \<noteq> None \<and>
   is_available [[0, 0], [0, 0]] \<lparr>x = 2, y = 2\<rparr> \<lparr>x = 1, y = 1\<rparr> = Some True \<and>
   set_cell [[0, 0], [0, 0]] \<lparr>x = 1, y = 1\<rparr> 1 \<noteq> None"
proof -
  have ok: "table_ok [[0, 0], [0, 0]] \<lparr>x = 2, y = 2\<rparr>"
    by (simp add: table_ok_def)
  have a: "is_available [[0, 0], [0, 0]] \<lparr>x = 2, y = 2\<rparr> \<lparr>x = 1, y = 1\<rparr> = Some True"
    by (simp add: is_available_def get_cell_def cell_ok_def val_def)
  from grid_accesses_in_bounds [OF ok, of "\<lparr>x = 1, y = 1\<rparr>" delta_default True 0 "Some 0" 1] a
  have "set_cell [[0, 0], [0, 0]] \<lparr>x = 1, y = 1\<rparr> 1 \<noteq> None" by blast
  with ok a grid_accesses_in_bounds [OF ok, of "\<lparr>x = 0, y = 0\<rparr>" delta_default True 0 "Some 0" 1]
  show ?thesis by blast
qed


end
